theory Spec2Isabelle
  imports Main "HOL-Library.AList" "HOL-Library.Multiset"
begin

section \<open>Errors raised by the Python code\<close>

datatype error = IndexError | KeyError | RuntimeError | ZeroDivisionError

definition bind_result :: "error + 'a \<Rightarrow> ('a \<Rightarrow> error + 'b) \<Rightarrow> error + 'b" where
  "bind_result m f = (case m of Inl e \<Rightarrow> Inl e | Inr x \<Rightarrow> f x)"

section \<open>Tensors\<close>

text \<open>
  A stacked weight block is a three-dimensional tensor object. Its three sizes are kept
  beside the nested element lists, so that a block with an empty dimension keeps its
  shape, and the object carries the address of its storage (\<^verbatim>\<open>data_ptr()\<close>): two
  tensors with the same elements are different objects when their addresses differ.
  The element type is left open: only shapes, positions and addresses matter below.
\<close>

record 'a tensor3 =
  size0 :: nat
  size1 :: nat
  size2 :: nat
  blocks :: "'a list list list"
  data_ptr :: int

text \<open>
  \<^verbatim>\<open>t.transpose(1, 2).contiguous()\<close>: every layer's matrix is transposed, and the result
  is the tensor that \<^verbatim>\<open>contiguous()\<close> hands back. Where its storage lies is decided by
  torch, not by this code: the address is given by \<open>new_ptr\<close>, from the tensor the result
  is built from.
\<close>

definition transpose_1_2 :: "('a tensor3 \<Rightarrow> int) \<Rightarrow> 'a tensor3 \<Rightarrow> 'a tensor3" where
  "transpose_1_2 new_ptr t =
     \<lparr>size0 = size0 t, size1 = size2 t, size2 = size1 t,
      blocks = map (\<lambda>m. map (\<lambda>j. map (\<lambda>row. row ! j) m) [0..<size2 t]) (blocks t),
      data_ptr = new_ptr t\<rparr>"

text \<open>The shape invariant every torch tensor has: the nested lists are rectangular.\<close>

definition tensor_ok :: "'a tensor3 \<Rightarrow> bool" where
  "tensor_ok t =
     (length (blocks t) = size0 t \<and>
      list_all (\<lambda>m. length m = size1 t \<and> list_all (\<lambda>row. length row = size2 t) m) (blocks t))"

section \<open>LoraConfig and LoraWeights\<close>

record LoraConfig =
  base_model_name_or_path :: string
  r :: int
  target_modules :: "string list option"
  fan_in_fan_out :: bool
  lora_alpha :: int
  use_rslora :: bool

text \<open>
  The fields of a \<^verbatim>\<open>LoraWeights\<close> object. The fields whose Python names start with an
  underscore carry the prefix \<open>priv_\<close>.
\<close>

record 'a LoraWeights =
  lora_a_r :: nat
  lora_b_r :: nat
  priv_use_cutlass_shrink :: bool
  priv_is_transposed :: bool
  priv_weights_a :: "'a tensor3"
  priv_weights_b :: "'a tensor3"
  adapter_config :: LoraConfig

text \<open>\<^verbatim>\<open>LoraWeights._transpose_weights\<close>: mutates the object; the model returns the new one.\<close>

definition transpose_weights ::
  "('a tensor3 \<Rightarrow> int) \<Rightarrow> 'a LoraWeights \<Rightarrow> 'a LoraWeights" where
  "transpose_weights new_ptr w =
     w\<lparr>priv_weights_a :=
         (if priv_use_cutlass_shrink w then transpose_1_2 new_ptr (priv_weights_a w)
          else priv_weights_a w),
       priv_weights_b := transpose_1_2 new_ptr (priv_weights_b w),
       priv_is_transposed := \<not> priv_is_transposed w\<rparr>"

text \<open>
  The four properties read a block and may flip the object first, so each returns the
  block together with the object as it is after the access.
\<close>

definition weights_a ::
  "('a tensor3 \<Rightarrow> int) \<Rightarrow> 'a LoraWeights \<Rightarrow> 'a tensor3 \<times> 'a LoraWeights" where
  "weights_a new_ptr w =
     (let w' = (if priv_is_transposed w then transpose_weights new_ptr w else w)
      in (priv_weights_a w', w'))"

definition weights_b ::
  "('a tensor3 \<Rightarrow> int) \<Rightarrow> 'a LoraWeights \<Rightarrow> 'a tensor3 \<times> 'a LoraWeights" where
  "weights_b new_ptr w =
     (let w' = (if priv_is_transposed w then transpose_weights new_ptr w else w)
      in (priv_weights_b w', w'))"

definition weights_a_t ::
  "('a tensor3 \<Rightarrow> int) \<Rightarrow> 'a LoraWeights \<Rightarrow> 'a tensor3 \<times> 'a LoraWeights" where
  "weights_a_t new_ptr w =
     (let w' = (if \<not> priv_is_transposed w then transpose_weights new_ptr w else w)
      in (priv_weights_a w', w'))"

definition weights_b_t ::
  "('a tensor3 \<Rightarrow> int) \<Rightarrow> 'a LoraWeights \<Rightarrow> 'a tensor3 \<times> 'a LoraWeights" where
  "weights_b_t new_ptr w =
     (let w' = (if \<not> priv_is_transposed w then transpose_weights new_ptr w else w)
      in (priv_weights_b w', w'))"

section \<open>Loading one adapter: LoraWeights.load and the constructor\<close>

text \<open>
  The weight matrices of one layer are two-dimensional tensors, kept with their two
  sizes like the stacked blocks.
\<close>

record 'a matrix =
  dim0 :: nat
  dim1 :: nat
  rows :: "'a list list"



text \<open>
  \<^verbatim>\<open>torch.stack\<close> raises on an empty list and on tensors of different shapes; the
  address of the tensor it builds is given by \<open>new_ptr\<close>.
\<close>

definition stack :: "('a matrix list \<Rightarrow> int) \<Rightarrow> 'a matrix list \<Rightarrow> error + 'a tensor3" where
  "stack new_ptr ws =
     (case ws of
        [] \<Rightarrow> Inl RuntimeError
      | w # rest \<Rightarrow>
          if list_all (\<lambda>v. dim0 v = dim0 w \<and> dim1 v = dim1 w) rest
          then Inr \<lparr>size0 = length ws, size1 = dim0 w, size2 = dim1 w, blocks = map rows ws,
                   data_ptr = new_ptr ws\<rparr>
          else Inl RuntimeError)"












section \<open>Batch metadata and the batch aggregation\<close>

text \<open>
  The values of the dictionary handed to \<^verbatim>\<open>BatchLoraWeights.load\<close>: a \<^verbatim>\<open>LoraWeights\<close>
  object, an object with a \<^verbatim>\<open>lora_weights\<close> attribute (holding any such value again,
  \<^verbatim>\<open>None\<close> included), or some other object.
\<close>

datatype 'a AdapterWeights =
    IsLoraWeights "'a LoraWeights"
  | HasLoraWeights "'a AdapterWeights"
  | OtherWeights

fun convert_lora :: "'a AdapterWeights \<Rightarrow> 'a AdapterWeights" where
  "convert_lora (HasLoraWeights v) = v"
| "convert_lora v = v"

record AdapterBatchMetadata =
  adapter_indices :: "int list"
  segment_indices :: "int list"
  adapter_segments :: "int list"

record 'b RankSegments =
  rank :: nat
  lora_a_ptr :: "int list"
  lora_b_ptr :: "int list"
  tmp_shrink :: "'b option"
  tmp_expand :: "'b option"
  segment_starts :: "int list option"
  segment_ends :: "int list option"
  indices :: "int list option"

text \<open>Python dictionaries keep insertion order: they are association lists here.\<close>

record ('a, 'b) BatchLoraWeights =
  lora_a :: "(int \<times> 'a tensor3) list"
  lora_b :: "(int \<times> 'a tensor3) list"
  adapter_index_configs :: "(int \<times> LoraConfig) list"
  rank_data :: "(nat \<times> 'b RankSegments) list"
  use_sgmv :: bool
  layer_name :: string
  prefill_head_indices :: "int list option"

definition has_adapter :: "('a, 'b) BatchLoraWeights \<Rightarrow> int \<Rightarrow> bool" where
  "has_adapter b adapter_index = (adapter_index \<in> fst ` set (adapter_index_configs b))"

text \<open>
  What \<^verbatim>\<open>load\<close> takes from outside this file: where torch puts the tensor that
  \<^verbatim>\<open>contiguous()\<close> builds, the address of the module's empty tensor, the capacity of the
  per-token kernel and the allocator of the two scratch buffers.
\<close>

record ('a, 'b) externals =
  contiguous_ptr :: "'a tensor3 \<Rightarrow> int"
  EMPTY_TENSOR_data_ptr :: int
  BGMV_MAX_RANK :: int
  get_tmp_tensors :: "nat \<Rightarrow> nat \<Rightarrow> 'b \<times> 'b"

type_synonym 'a adapters = "(int \<times> 'a LoraWeights) list"

text \<open>Lines 262-263: unwrap every value, keep the \<^verbatim>\<open>LoraWeights\<close> objects.\<close>

fun lora_only :: "(int \<times> 'a AdapterWeights) list \<Rightarrow> 'a adapters" where
  "lora_only [] = []"
| "lora_only ((k, v) # rest) =
     (case convert_lora v of
        IsLoraWeights w \<Rightarrow> (k, w) # lora_only rest
      | _ \<Rightarrow> lora_only rest)"

text \<open>Line 267-268: reading \<^verbatim>\<open>first_weights.weights_a\<close> may flip the first adapter.\<close>

definition touch_first :: "('a tensor3 \<Rightarrow> int) \<Rightarrow> 'a adapters \<Rightarrow> 'a adapters" where
  "touch_first new_ptr aw =
     (case aw of [] \<Rightarrow> aw
      | (k, w) # _ \<Rightarrow> AList.update k (snd (weights_a new_ptr w)) aw)"

text \<open>
  Lines 271-272: \<^verbatim>\<open>{idx: adapter_weights[idx].P for idx in segment_indices if idx in
  adapter_weights}\<close> for a property \<open>P\<close>; each read may flip the adapter it reads.
\<close>

fun collect_blocks ::
  "('a LoraWeights \<Rightarrow> 'a tensor3 \<times> 'a LoraWeights) \<Rightarrow> int list \<Rightarrow> 'a adapters \<Rightarrow>
   (int \<times> 'a tensor3) list \<Rightarrow> (int \<times> 'a tensor3) list \<times> 'a adapters" where
  "collect_blocks P [] aw acc = (acc, aw)"
| "collect_blocks P (idx # rest) aw acc =
     (case map_of aw idx of
        None \<Rightarrow> collect_blocks P rest aw acc
      | Some w \<Rightarrow>
          collect_blocks P rest (AList.update idx (snd (P w)) aw)
            (AList.update idx (fst (P w)) acc))"

text \<open>Line 274: the ranks of the segments whose adapter is loaded for this layer.\<close>

definition segment_ranks :: "'a adapters \<Rightarrow> int list \<Rightarrow> nat list" where
  "segment_ranks aw segs =
     concat (map (\<lambda>idx. case map_of aw idx of None \<Rightarrow> [] | Some w \<Rightarrow> [lora_a_r w]) segs)"

text \<open>Python's \<^verbatim>\<open>max\<close> of a list that is not empty.\<close>

definition max_list :: "nat list \<Rightarrow> nat" where
  "max_list xs = fold max (tl xs) (hd xs)"

text \<open>
  Lines 281-314: one pointer per segment, read through property \<open>P\<close>, or the address of
  the empty tensor where the segment's adapter is not loaded.
\<close>

fun collect_ptrs ::
  "('a, 'b) externals \<Rightarrow> ('a LoraWeights \<Rightarrow> 'a tensor3 \<times> 'a LoraWeights) \<Rightarrow> int list \<Rightarrow>
   'a adapters \<Rightarrow> int list \<times> 'a adapters" where
  "collect_ptrs ext P [] aw = ([], aw)"
| "collect_ptrs ext P (idx # rest) aw =
     (case map_of aw idx of
        None \<Rightarrow>
          (case collect_ptrs ext P rest aw of
             (ps, aw') \<Rightarrow> (EMPTY_TENSOR_data_ptr ext # ps, aw'))
      | Some w \<Rightarrow>
          (case collect_ptrs ext P rest (AList.update idx (snd (P w)) aw) of
             (ps, aw') \<Rightarrow> (data_ptr (fst (P w)) # ps, aw')))"

text \<open>Lines 278-314: the kernel choice and the two pointer tables.\<close>

definition choose_sgmv :: "('a, 'b) externals \<Rightarrow> bool \<Rightarrow> nat list \<Rightarrow> bool" where
  "choose_sgmv ext prefill ranks = (prefill \<or> int (max_list ranks) > BGMV_MAX_RANK ext)"

definition pointer_tables ::
  "('a, 'b) externals \<Rightarrow> bool \<Rightarrow> int list \<Rightarrow> 'a adapters \<Rightarrow>
   (int list \<times> int list) \<times> 'a adapters" where
  "pointer_tables ext sgmv segs aw =
     (if sgmv then
        (case collect_ptrs ext (weights_a (contiguous_ptr ext)) segs aw of
           (pa, aw1) \<Rightarrow>
             (case collect_ptrs ext (weights_b (contiguous_ptr ext)) segs aw1 of (pb, aw2) \<Rightarrow> ((pa, pb), aw2)))
      else
        (case collect_ptrs ext (weights_a_t (contiguous_ptr ext)) segs aw of
           (pa, aw1) \<Rightarrow>
             (case collect_ptrs ext (weights_b_t (contiguous_ptr ext)) segs aw1 of (pb, aw2) \<Rightarrow> ((pa, pb), aw2))))"

text \<open>Lines 316-318.\<close>

fun index_configs ::
  "'a adapters \<Rightarrow> int list \<Rightarrow> (int \<times> LoraConfig) list \<Rightarrow> (int \<times> LoraConfig) list" where
  "index_configs aw [] acc = acc"
| "index_configs aw (idx # rest) acc =
     (case map_of aw idx of
        None \<Rightarrow> index_configs aw rest acc
      | Some w \<Rightarrow> index_configs aw rest (AList.update idx (adapter_config w) acc))"

text \<open>
  Lines 320-324: \<^verbatim>\<open>rank_indices[rank].append(segment_idx)\<close> on a \<^verbatim>\<open>defaultdict(list)\<close>, and
  the loop over \<^verbatim>\<open>enumerate(segment_indices)\<close>, the position counted from \<open>i\<close>.
\<close>

fun append_at :: "nat \<Rightarrow> nat \<Rightarrow> (nat \<times> nat list) list \<Rightarrow> (nat \<times> nat list) list" where
  "append_at k i [] = [(k, [i])]"
| "append_at k i ((k', is) # rest) =
     (if k' = k then (k', is @ [i]) # rest else (k', is) # append_at k i rest)"

fun rank_indices_from ::
  "'a adapters \<Rightarrow> nat \<Rightarrow> int list \<Rightarrow> (nat \<times> nat list) list \<Rightarrow> (nat \<times> nat list) list" where
  "rank_indices_from aw i [] acc = acc"
| "rank_indices_from aw i (adapter_idx # rest) acc =
     (case map_of aw adapter_idx of
        None \<Rightarrow> rank_indices_from aw (Suc i) rest acc
      | Some w \<Rightarrow> rank_indices_from aw (Suc i) rest (append_at (lora_a_r w) i acc))"

definition rank_indices :: "'a adapters \<Rightarrow> int list \<Rightarrow> (nat \<times> nat list) list" where
  "rank_indices aw segs = rank_indices_from aw 0 segs []"

text \<open>
  Lines 326-335: the boundaries over the selected positions. Reading
  \<^verbatim>\<open>meta.adapter_segments[j]\<close> past the end of the tensor raises.
\<close>

fun prefill_head_segments ::
  "int list \<Rightarrow> int list \<Rightarrow> nat \<Rightarrow> int list \<Rightarrow> int list \<Rightarrow> error + (int list \<times> int list)" where
  "prefill_head_segments bounds [] j starts ends = Inr (starts, ends)"
| "prefill_head_segments bounds (head_index # rest) j starts ends =
     (if j < length bounds then
        (if head_index < bounds ! j then
           prefill_head_segments bounds rest j starts (butlast ends @ [last ends + 1])
         else
           prefill_head_segments bounds rest (j + 1) (starts @ [last ends])
             (ends @ [last ends + 1]))
      else Inl IndexError)"

text \<open>Indexing a tensor or a list with a list of positions; a position past the end raises.\<close>

fun gather :: "'c list \<Rightarrow> nat list \<Rightarrow> error + 'c list" where
  "gather xs [] = Inr []"
| "gather xs (i # is) =
     (if i < length xs then bind_result (gather xs is) (\<lambda>ys. Inr (xs ! i # ys))
      else Inl IndexError)"

text \<open>
  Lines 360-365: the first place of every adapter index within a rank group. Reading
  \<^verbatim>\<open>segment_indices[idx]\<close> past the end of the list raises.
\<close>

fun idx_locs_from ::
  "int list \<Rightarrow> nat \<Rightarrow> nat list \<Rightarrow> (int \<times> nat) list \<Rightarrow> error + (int \<times> nat) list" where
  "idx_locs_from segs loc [] acc = Inr acc"
| "idx_locs_from segs loc (idx # rest) acc =
     (if idx < length segs then
        (if segs ! idx \<notin> fst ` set acc
         then idx_locs_from segs (Suc loc) rest (AList.update (segs ! idx) loc acc)
         else idx_locs_from segs (Suc loc) rest acc)
      else Inl IndexError)"

text \<open>Lines 368-375: one entry per token; \<^verbatim>\<open>idx_locs[idx]\<close> on a missing key raises.\<close>

fun batch_indices_of ::
  "'a adapters \<Rightarrow> nat \<Rightarrow> (int \<times> nat) list \<Rightarrow> int list \<Rightarrow> error + int list" where
  "batch_indices_of aw rk idx_locs [] = Inr []"
| "batch_indices_of aw rk idx_locs (idx # rest) =
     bind_result
       (case map_of aw idx of
          None \<Rightarrow> Inr (- 1)
        | Some w \<Rightarrow>
            (if lora_a_r w = rk then
               (case map_of idx_locs idx of None \<Rightarrow> Inl KeyError | Some loc \<Rightarrow> Inr (int loc))
             else Inr (- 1)))
       (\<lambda>v. bind_result (batch_indices_of aw rk idx_locs rest) (\<lambda>vs. Inr (v # vs)))"

text \<open>Lines 339-386: the body of the loop over \<^verbatim>\<open>rank_indices.items()\<close>.\<close>

definition rank_segments ::
  "('a, 'b) externals \<Rightarrow> 'a adapters \<Rightarrow> AdapterBatchMetadata \<Rightarrow> bool \<Rightarrow> int list \<Rightarrow> int list \<Rightarrow>
   (int list \<times> int list) option \<Rightarrow> nat \<Rightarrow> nat list \<Rightarrow> error + 'b RankSegments" where
  "rank_segments ext aw meta sgmv pa pb heads rk ixs =
     (if sgmv then
        bind_result (gather pa ixs) (\<lambda>lora_a_ptr_indices.
        case get_tmp_tensors ext (length lora_a_ptr_indices) rk of (shrink, expand) \<Rightarrow>
        bind_result (gather (adapter_segments meta) ixs) (\<lambda>starts0.
        bind_result (gather (adapter_segments meta) (map (\<lambda>i. i + 1) ixs)) (\<lambda>ends0.
        bind_result
          (case heads of
             None \<Rightarrow> Inr (starts0, ends0)
           | Some (hstarts, hends) \<Rightarrow>
               bind_result (gather hstarts ixs) (\<lambda>starts1.
               bind_result (gather hends ixs) (\<lambda>ends1. Inr (starts1, ends1))))
          (\<lambda>(starts, ends).
        bind_result (gather pa ixs) (\<lambda>a_slice.
        bind_result (gather pb ixs) (\<lambda>b_slice.
          Inr \<lparr>rank = rk, lora_a_ptr = a_slice, lora_b_ptr = b_slice,
               tmp_shrink = Some shrink, tmp_expand = Some expand,
               segment_starts = Some starts, segment_ends = Some ends,
               indices = None\<rparr>))))))
      else
        bind_result (idx_locs_from (segment_indices meta) 0 ixs []) (\<lambda>idx_locs.
        bind_result (batch_indices_of aw rk idx_locs (adapter_indices meta)) (\<lambda>batch_indices.
        bind_result (gather pa ixs) (\<lambda>a_slice.
        bind_result (gather pb ixs) (\<lambda>b_slice.
          Inr \<lparr>rank = rk, lora_a_ptr = a_slice, lora_b_ptr = b_slice,
               tmp_shrink = None, tmp_expand = None,
               segment_starts = None, segment_ends = None,
               indices = Some batch_indices\<rparr>)))))"

fun rank_data_of ::
  "('a, 'b) externals \<Rightarrow> 'a adapters \<Rightarrow> AdapterBatchMetadata \<Rightarrow> bool \<Rightarrow> int list \<Rightarrow> int list \<Rightarrow>
   (int list \<times> int list) option \<Rightarrow> (nat \<times> nat list) list \<Rightarrow>
   error + (nat \<times> 'b RankSegments) list" where
  "rank_data_of ext aw meta sgmv pa pb heads [] = Inr []"
| "rank_data_of ext aw meta sgmv pa pb heads ((rk, ixs) # rest) =
     bind_result (rank_segments ext aw meta sgmv pa pb heads rk ixs) (\<lambda>rs.
     bind_result (rank_data_of ext aw meta sgmv pa pb heads rest) (\<lambda>rds.
       Inr ((rk, rs) # rds)))"

text \<open>Lines 326-335 with their guard.\<close>

definition head_segments :: "AdapterBatchMetadata \<Rightarrow> int list option \<Rightarrow>
    error + (int list \<times> int list) option" where
  "head_segments meta heads =
     (case heads of
        None \<Rightarrow> Inr None
      | Some hs \<Rightarrow>
          bind_result (prefill_head_segments (adapter_segments meta) hs 1 [0] [0])
            (\<lambda>se. Inr (Some se)))"

text \<open>
  \<^verbatim>\<open>BatchLoraWeights.load\<close>, lines 262-324: the local variables the rest of the body
  works from, or \<open>None\<close> where the method returns \<^verbatim>\<open>None\<close>; beside them the adapter
  objects as these lines leave them.
\<close>

record 'a load_locals =
  loc_lora_a :: "(int \<times> 'a tensor3) list"
  loc_lora_b :: "(int \<times> 'a tensor3) list"
  loc_use_sgmv :: bool
  loc_lora_a_ptr :: "int list"
  loc_lora_b_ptr :: "int list"
  loc_adapter_index_configs :: "(int \<times> LoraConfig) list"
  loc_rank_indices :: "(nat \<times> nat list) list"

definition load_locals ::
  "('a, 'b) externals \<Rightarrow> (int \<times> 'a AdapterWeights) list \<Rightarrow> AdapterBatchMetadata \<Rightarrow>
   bool \<Rightarrow> 'a load_locals option \<times> 'a adapters" where
  "load_locals ext adapter_weights meta prefill =
     (let aw0 = lora_only adapter_weights in
      if aw0 = [] then (None, aw0)
      else
        let aw1 = touch_first (contiguous_ptr ext) aw0;
            segs = segment_indices meta in
        case collect_blocks (weights_a (contiguous_ptr ext)) segs aw1 [] of (la, aw2) \<Rightarrow>
        case collect_blocks (weights_b (contiguous_ptr ext)) segs aw2 [] of (lb, aw3) \<Rightarrow>
        let ranks = segment_ranks aw3 segs in
        if ranks = [] then (None, aw3)
        else
          let sgmv = choose_sgmv ext prefill ranks in
          case pointer_tables ext sgmv segs aw3 of ((pa, pb), aw4) \<Rightarrow>
            (Some \<lparr>loc_lora_a = la, loc_lora_b = lb, loc_use_sgmv = sgmv,
                    loc_lora_a_ptr = pa, loc_lora_b_ptr = pb,
                    loc_adapter_index_configs = index_configs aw4 segs [],
                    loc_rank_indices = rank_indices aw4 segs\<rparr>, aw4))"

text \<open>
  \<^verbatim>\<open>BatchLoraWeights.load\<close>. The result is the error raised, or the value returned
  (\<open>None\<close> or the aggregation) with the adapter objects as the call leaves them.
\<close>

definition load ::
  "('a, 'b) externals \<Rightarrow> (int \<times> 'a AdapterWeights) list \<Rightarrow> AdapterBatchMetadata \<Rightarrow> string \<Rightarrow>
   bool \<Rightarrow> int list option \<Rightarrow> error + (('a, 'b) BatchLoraWeights option \<times> 'a adapters)" where
  "load ext adapter_weights meta lname prefill heads =
     (case load_locals ext adapter_weights meta prefill of
        (None, aw) \<Rightarrow> Inr (None, aw)
      | (Some L, aw) \<Rightarrow>
          bind_result (head_segments meta heads) (\<lambda>hsegs.
          bind_result
            (rank_data_of ext aw meta (loc_use_sgmv L) (loc_lora_a_ptr L) (loc_lora_b_ptr L)
               hsegs (loc_rank_indices L)) (\<lambda>rd.
            Inr (Some \<lparr>lora_a = loc_lora_a L, lora_b = loc_lora_b L,
                       adapter_index_configs = loc_adapter_index_configs L,
                       rank_data = rd, use_sgmv = loc_use_sgmv L, layer_name = lname,
                       prefill_head_indices = heads\<rparr>, aw))))"

section \<open>Notions used in the proofs\<close>

text \<open>
  The fields of an adapter object that no access changes, and the relation between two
  adapter dictionaries that agree on them key by key.
\<close>

definition stat :: "'a LoraWeights \<Rightarrow> nat \<times> LoraConfig" where
  "stat w = (lora_a_r w, adapter_config w)"

definition same_static :: "'a adapters \<Rightarrow> 'a adapters \<Rightarrow> bool" where
  "same_static aw aw' = (\<forall>k. map_option stat (map_of aw k) = map_option stat (map_of aw' k))"

definition keeps_static :: "('a LoraWeights \<Rightarrow> 'a tensor3 \<times> 'a LoraWeights) \<Rightarrow> bool" where
  "keeps_static P = (\<forall>w. stat (snd (P w)) = stat w)"

text \<open>The adapter objects as lines 262-274 of \<^verbatim>\<open>load\<close> leave them.\<close>

definition state_before_tables ::
  "('a, 'b) externals \<Rightarrow> (int \<times> 'a AdapterWeights) list \<Rightarrow> AdapterBatchMetadata \<Rightarrow>
   'a adapters" where
  "state_before_tables ext adapter_weights meta =
     snd (collect_blocks (weights_b (contiguous_ptr ext)) (segment_indices meta)
       (snd (collect_blocks (weights_a (contiguous_ptr ext)) (segment_indices meta)
          (touch_first (contiguous_ptr ext) (lora_only adapter_weights)) [])) [])"

section \<open>A small batch to run the definitions on\<close>

text \<open>
  Three loaded adapters (0 and 5 of rank 1, 1 of rank 2 behind a wrapper object), one
  entry without LoRA weights (7), and a batch of four segments over seven tokens.
\<close>

definition demo_block :: "int \<Rightarrow> nat \<Rightarrow> nat \<Rightarrow> int tensor3" where
  "demo_block v h k =
     \<lparr>size0 = 1, size1 = h, size2 = k, blocks = [replicate h (replicate k v)],
      data_ptr = 1000 * v\<rparr>"

definition demo_config :: LoraConfig where
  "demo_config = \<lparr>base_model_name_or_path = ''base'', r = 2, target_modules = None,
     fan_in_fan_out = False, lora_alpha = 4, use_rslora = False\<rparr>"

definition demo_weights :: "int \<Rightarrow> nat \<Rightarrow> bool \<Rightarrow> int LoraWeights" where
  "demo_weights v k ucs = \<lparr>lora_a_r = k, lora_b_r = k, priv_use_cutlass_shrink = ucs,
     priv_is_transposed = False, priv_weights_a = demo_block v 3 k,
     priv_weights_b = demo_block (v + 1) k 3, adapter_config = demo_config\<rparr>"

definition demo_ext :: "(int, unit) externals" where
  "demo_ext = \<lparr>contiguous_ptr = (\<lambda>t. data_ptr t + 1),
     EMPTY_TENSOR_data_ptr = 0, BGMV_MAX_RANK = 2, get_tmp_tensors = (\<lambda>n k. ((), ()))\<rparr>"

definition demo_meta :: AdapterBatchMetadata where
  "demo_meta = \<lparr>adapter_indices = [0, 0, 1, 1, 1, 7, 0], segment_indices = [0, 1, 7, 0],
     adapter_segments = [0, 2, 5, 6, 7]\<rparr>"

definition demo_adapters :: "(int \<times> int AdapterWeights) list" where
  "demo_adapters = [(0, IsLoraWeights (demo_weights 10 1 True)),
     (1, HasLoraWeights (IsLoraWeights (demo_weights 20 2 False))),
     (7, OtherWeights), (5, IsLoraWeights (demo_weights 30 1 True))]"

definition demo_meta_unloaded :: AdapterBatchMetadata where
  "demo_meta_unloaded = \<lparr>adapter_indices = [7, 7, 9], segment_indices = [7, 9],
     adapter_segments = [0, 2, 3]\<rparr>"


definition positions_with_rank :: "'a adapters \<Rightarrow> nat \<Rightarrow> int list \<Rightarrow> nat \<Rightarrow> nat list" where
  "positions_with_rank aw i segs rk =
     map fst (filter (\<lambda>(p, a). map_option lora_a_r (map_of aw a) = Some rk) (enumerate i segs))"



text \<open>
  The loop of lines 328-335 after the selected positions \<open>pre\<close>, for \<open>n\<close> segments: the
  lists hold one entry for each segment opened so far, every start is the end before
  it, every end counts the positions read that lie before the segment's next boundary,
  all positions read lie before the boundary the loop now compares with, and the
  segment it is in was opened by a position not before its first boundary.
\<close>

definition head_inv ::
  "int list \<Rightarrow> nat \<Rightarrow> int list \<Rightarrow> nat \<Rightarrow> int list \<Rightarrow> int list \<Rightarrow> bool" where
  "head_inv bounds n pre j starts ends =
     (1 \<le> j \<and> j \<le> n \<and> length ends = j \<and> starts = 0 # butlast ends \<and>
      (\<forall>k<j. ends ! k = int (length (filter (\<lambda>h. h < bounds ! (k + 1)) pre))) \<and>
      (\<forall>h\<in>set pre. h < bounds ! j) \<and>
      (2 \<le> j \<longrightarrow> (\<exists>h\<in>set pre. bounds ! (j - 1) \<le> h)))"

text \<open>
  Two ways to compare tensor objects by what they hold, whatever their addresses:
  \<open>s\<close> has the shape and the elements of \<open>t\<close>; \<open>s\<close> is \<open>t\<close> with its last two dimensions
  exchanged, the element at \<open>(l, j, i)\<close> of \<open>s\<close> being the element at \<open>(l, i, j)\<close> of \<open>t\<close>.
\<close>

definition same_elements :: "'a tensor3 \<Rightarrow> 'a tensor3 \<Rightarrow> bool" where
  "same_elements s t =
     (size0 s = size0 t \<and> size1 s = size1 t \<and> size2 s = size2 t \<and> blocks s = blocks t)"

definition transposed_of :: "'a tensor3 \<Rightarrow> 'a tensor3 \<Rightarrow> bool" where
  "transposed_of s t =
     (size0 s = size0 t \<and> size1 s = size2 t \<and> size2 s = size1 t \<and>
      length (blocks s) = size0 s \<and>
      (\<forall>l<size0 t. length (blocks s ! l) = size1 s \<and>
         (\<forall>j<size2 t. length (blocks s ! l ! j) = size2 s \<and>
            (\<forall>i<size1 t. blocks s ! l ! j ! i = blocks t ! l ! i ! j))))"

text \<open>An adapter with blocks of distinct elements, to watch the transposition on.\<close>

definition toggle_weights :: "bool \<Rightarrow> int LoraWeights" where
  "toggle_weights ucs =
     \<lparr>lora_a_r = 2, lora_b_r = 2, priv_use_cutlass_shrink = ucs, priv_is_transposed = False,
      priv_weights_a = \<lparr>size0 = 1, size1 = 3, size2 = 2,
                        blocks = [[[1, 2], [3, 4], [5, 6]]], data_ptr = 4096\<rparr>,
      priv_weights_b = \<lparr>size0 = 1, size1 = 2, size2 = 3,
                        blocks = [[[7, 8, 9], [10, 11, 12]]], data_ptr = 8192\<rparr>,
      adapter_config = demo_config\<rparr>"












section \<open>The adapter objects across the accesses of load\<close>

lemma stat_transpose_weights: "stat (transpose_weights np w) = stat w"
  by (simp add: stat_def transpose_weights_def)

lemma keeps_static_accessors:
  "keeps_static (weights_a np)" "keeps_static (weights_b np)"
  "keeps_static (weights_a_t np)" "keeps_static (weights_b_t np)"
  by (simp_all add: keeps_static_def weights_a_def weights_b_def weights_a_t_def
      weights_b_t_def Let_def stat_transpose_weights)

lemma same_static_refl: "same_static aw aw"
  by (simp add: same_static_def)

lemma same_static_trans: "same_static a b \<Longrightarrow> same_static b c \<Longrightarrow> same_static a c"
  by (simp add: same_static_def)

lemma same_static_update:
  "map_of aw k = Some w \<Longrightarrow> stat w' = stat w \<Longrightarrow> same_static aw (AList.update k w' aw)"
  by (simp add: same_static_def update_conv')

lemma same_static_dom:
  assumes "same_static aw aw'"
  shows "(map_of aw k = None) = (map_of aw' k = None)"
proof -
  have "map_option stat (map_of aw k) = map_option stat (map_of aw' k)"
    using assms by (simp add: same_static_def)
  then show ?thesis by (cases "map_of aw k"; cases "map_of aw' k"; simp)
qed

lemma same_static_rank:
  assumes "same_static aw aw'" and "map_of aw k = Some w"
  shows "\<exists>w'. map_of aw' k = Some w' \<and> lora_a_r w' = lora_a_r w \<and>
    adapter_config w' = adapter_config w"
proof -
  have "map_option stat (map_of aw k) = map_option stat (map_of aw' k)"
    using assms(1) by (simp add: same_static_def)
  then show ?thesis using assms(2) by (cases "map_of aw' k") (simp_all add: stat_def)
qed

lemma same_static_sym: "same_static a b \<Longrightarrow> same_static b a"
  by (simp add: same_static_def)

lemma collect_blocks_static:
  "keeps_static P \<Longrightarrow> same_static aw (snd (collect_blocks P segs aw acc))"
proof (induction segs arbitrary: aw acc)
  case Nil
  then show ?case by (simp add: same_static_refl)
next
  case (Cons idx rest)
  show ?case
  proof (cases "map_of aw idx")
    case None
    then show ?thesis using Cons by simp
  next
    case (Some w)
    have "same_static aw (AList.update idx (snd (P w)) aw)"
      using Some Cons.prems by (simp add: same_static_update keeps_static_def)
    then show ?thesis
      using Some Cons.IH [OF Cons.prems] by (auto intro: same_static_trans)
  qed
qed

lemma collect_ptrs_static:
  "keeps_static P \<Longrightarrow> same_static aw (snd (collect_ptrs ext P segs aw))"
proof (induction segs arbitrary: aw)
  case Nil
  then show ?case by (simp add: same_static_refl)
next
  case (Cons idx rest)
  show ?case
  proof (cases "map_of aw idx")
    case None
    then show ?thesis using Cons by (simp add: case_prod_beta)
  next
    case (Some w)
    have "same_static aw (AList.update idx (snd (P w)) aw)"
      using Some Cons.prems by (simp add: same_static_update keeps_static_def)
    moreover have "same_static (AList.update idx (snd (P w)) aw)
        (snd (collect_ptrs ext P rest (AList.update idx (snd (P w)) aw)))"
      using Cons.IH [OF Cons.prems] .
    ultimately show ?thesis
      using Some by (auto simp: case_prod_beta intro: same_static_trans)
  qed
qed

lemma touch_first_static: "same_static aw (touch_first np aw)"
proof (cases aw)
  case Nil
  then show ?thesis by (simp add: touch_first_def same_static_refl)
next
  case (Cons p rest)
  obtain k w where p: "p = (k, w)" by (cases p)
  have "map_of aw k = Some w" using Cons p by simp
  moreover have "stat (snd (weights_a np w)) = stat w"
    by (rule keeps_static_accessors(1) [unfolded keeps_static_def, rule_format])
  ultimately have "same_static aw (AList.update k (snd (weights_a np w)) aw)"
    by (rule same_static_update)
  moreover have "touch_first np aw = AList.update k (snd (weights_a np w)) aw"
    unfolding touch_first_def Cons p by simp
  ultimately show ?thesis by simp
qed

lemma pointer_tables_static: "same_static aw (snd (pointer_tables ext sgmv segs aw))"
proof -
  have step: "same_static aw (snd (collect_ptrs ext Q segs (snd (collect_ptrs ext P segs aw))))"
    if "keeps_static P" "keeps_static Q" for P Q :: "'a LoraWeights \<Rightarrow> 'a tensor3 \<times> 'a LoraWeights"
    using collect_ptrs_static [OF that(1), of aw ext segs]
      collect_ptrs_static [OF that(2), of "snd (collect_ptrs ext P segs aw)" ext segs]
    by (rule same_static_trans)
  show ?thesis
    using step [OF keeps_static_accessors(1) keeps_static_accessors(2)]
      step [OF keeps_static_accessors(3) keeps_static_accessors(4)]
    by (simp add: pointer_tables_def case_prod_beta)
qed

lemma segment_ranks_static:
  "same_static aw aw' \<Longrightarrow> segment_ranks aw segs = segment_ranks aw' segs"
proof (induction segs)
  case Nil
  then show ?case by (simp add: segment_ranks_def)
next
  case (Cons idx rest)
  then have "segment_ranks aw rest = segment_ranks aw' rest" by simp
  moreover have "(case map_of aw idx of None \<Rightarrow> [] | Some w \<Rightarrow> [lora_a_r w])
      = (case map_of aw' idx of None \<Rightarrow> [] | Some w \<Rightarrow> [lora_a_r w])"
    using same_static_rank [OF Cons.prems, of idx] same_static_dom [OF Cons.prems, of idx]
    by (cases "map_of aw idx") auto
  ultimately show ?case by (simp add: segment_ranks_def)
qed

lemma index_configs_static:
  "same_static aw aw' \<Longrightarrow> index_configs aw segs acc = index_configs aw' segs acc"
proof (induction segs arbitrary: acc)
  case Nil
  then show ?case by simp
next
  case (Cons idx rest)
  show ?case
    using same_static_rank [OF Cons.prems, of idx] same_static_dom [OF Cons.prems, of idx]
      Cons.IH [OF Cons.prems]
    by (cases "map_of aw idx") auto
qed

lemma rank_indices_from_static:
  "same_static aw aw' \<Longrightarrow> rank_indices_from aw i segs acc = rank_indices_from aw' i segs acc"
proof (induction segs arbitrary: i acc)
  case Nil
  then show ?case by simp
next
  case (Cons idx rest)
  show ?case
    using same_static_rank [OF Cons.prems, of idx] same_static_dom [OF Cons.prems, of idx]
      Cons.IH [OF Cons.prems]
    by (cases "map_of aw idx") auto
qed

lemma batch_indices_of_static:
  "same_static aw aw' \<Longrightarrow> batch_indices_of aw rk locs toks = batch_indices_of aw' rk locs toks"
proof (induction toks)
  case Nil
  then show ?case by simp
next
  case (Cons idx rest)
  show ?case
    using same_static_rank [OF Cons.prems, of idx] same_static_dom [OF Cons.prems, of idx]
      Cons.IH [OF Cons.prems]
    by (cases "map_of aw idx") auto
qed

lemma load_locals_static:
  "same_static (lora_only adapter_weights) (snd (load_locals ext adapter_weights meta prefill))"
proof -
  let ?aw0 = "lora_only adapter_weights"
  let ?segs = "segment_indices meta"
  let ?aw1 = "touch_first (contiguous_ptr ext) ?aw0"
  let ?aw2 = "snd (collect_blocks (weights_a (contiguous_ptr ext)) ?segs ?aw1 [])"
  let ?aw3 = "snd (collect_blocks (weights_b (contiguous_ptr ext)) ?segs ?aw2 [])"
  have s3: "same_static ?aw0 ?aw3"
    using touch_first_static [of ?aw0 "contiguous_ptr ext"]
      collect_blocks_static [OF keeps_static_accessors(1) [of "contiguous_ptr ext"], of ?aw1 ?segs "[]"]
      collect_blocks_static [OF keeps_static_accessors(2) [of "contiguous_ptr ext"], of ?aw2 ?segs "[]"]
    by (blast intro: same_static_trans)
  have s4: "same_static ?aw0 (snd (pointer_tables ext sg ?segs ?aw3))" for sg
    using s3 pointer_tables_static [of ?aw3 ext sg ?segs] by (rule same_static_trans)
  show ?thesis
    using s3 s4
    by (simp add: load_locals_def Let_def same_static_refl case_prod_beta)
qed

section \<open>Unfolding load\<close>

lemma state_before_tables_static:
  "same_static (lora_only adapter_weights) (state_before_tables ext adapter_weights meta)"
proof -
  let ?aw0 = "lora_only adapter_weights"
  let ?segs = "segment_indices meta"
  let ?aw1 = "touch_first (contiguous_ptr ext) ?aw0"
  let ?aw2 = "snd (collect_blocks (weights_a (contiguous_ptr ext)) ?segs ?aw1 [])"
  show ?thesis
    unfolding state_before_tables_def
    using touch_first_static [of ?aw0 "contiguous_ptr ext"]
      collect_blocks_static [OF keeps_static_accessors(1) [of "contiguous_ptr ext"], of ?aw1 ?segs "[]"]
      collect_blocks_static [OF keeps_static_accessors(2) [of "contiguous_ptr ext"], of ?aw2 ?segs "[]"]
    by (blast intro: same_static_trans)
qed

lemma load_locals_Some:
  assumes "load_locals ext adapter_weights meta prefill = (Some L, aw')"
  defines "aw0 \<equiv> lora_only adapter_weights"
    and "segs \<equiv> segment_indices meta"
    and "aw3 \<equiv> state_before_tables ext adapter_weights meta"
  shows "aw0 \<noteq> []" and "segment_ranks aw0 segs \<noteq> []"
    and "loc_use_sgmv L = choose_sgmv ext prefill (segment_ranks aw0 segs)"
    and "pointer_tables ext (loc_use_sgmv L) segs aw3 = ((loc_lora_a_ptr L, loc_lora_b_ptr L), aw')"
    and "loc_adapter_index_configs L = index_configs aw0 segs []"
    and "loc_rank_indices L = rank_indices aw0 segs"
    and "same_static aw0 aw'"
proof -
  have st3: "same_static aw0 aw3"
    unfolding aw0_def aw3_def by (rule state_before_tables_static)
  have r3: "segment_ranks aw3 segs = segment_ranks aw0 segs"
    using segment_ranks_static [OF st3] by simp
  show ne: "aw0 \<noteq> []"
    using assms(1) unfolding aw0_def load_locals_def Let_def by (auto split: if_splits)
  obtain pa pb aw4 where pt:
    "pointer_tables ext (choose_sgmv ext prefill (segment_ranks aw3 segs)) segs aw3 = ((pa, pb), aw4)"
    by (metis prod.exhaust)
  have body: "load_locals ext adapter_weights meta prefill =
      (if segment_ranks aw3 segs = [] then (None, aw3)
       else (Some \<lparr>loc_lora_a = fst (collect_blocks (weights_a (contiguous_ptr ext)) segs (touch_first (contiguous_ptr ext) aw0) []),
                loc_lora_b = fst (collect_blocks (weights_b (contiguous_ptr ext)) segs
                   (snd (collect_blocks (weights_a (contiguous_ptr ext)) segs (touch_first (contiguous_ptr ext) aw0) [])) []),
                loc_use_sgmv = choose_sgmv ext prefill (segment_ranks aw3 segs),
                loc_lora_a_ptr = pa, loc_lora_b_ptr = pb,
                loc_adapter_index_configs = index_configs aw4 segs [],
                loc_rank_indices = rank_indices aw4 segs\<rparr>, aw4))"
    using ne pt unfolding load_locals_def aw0_def segs_def aw3_def state_before_tables_def Let_def
    by (simp add: case_prod_beta)
  show rne: "segment_ranks aw0 segs \<noteq> []"
    using assms(1) body r3 by (auto split: if_splits)
  have L: "L = \<lparr>loc_lora_a = fst (collect_blocks (weights_a (contiguous_ptr ext)) segs (touch_first (contiguous_ptr ext) aw0) []),
                loc_lora_b = fst (collect_blocks (weights_b (contiguous_ptr ext)) segs
                   (snd (collect_blocks (weights_a (contiguous_ptr ext)) segs (touch_first (contiguous_ptr ext) aw0) [])) []),
                loc_use_sgmv = choose_sgmv ext prefill (segment_ranks aw3 segs),
                loc_lora_a_ptr = pa, loc_lora_b_ptr = pb,
                loc_adapter_index_configs = index_configs aw4 segs [],
                loc_rank_indices = rank_indices aw4 segs\<rparr>" and aw': "aw' = aw4"
    using assms(1) body rne r3 by (auto split: if_splits)
  have st4: "same_static aw3 aw4"
    using pointer_tables_static [of aw3 ext "choose_sgmv ext prefill (segment_ranks aw3 segs)" segs] pt
    by simp
  show st: "same_static aw0 aw'"
    using st3 st4 aw' by (blast intro: same_static_trans)
  show "loc_use_sgmv L = choose_sgmv ext prefill (segment_ranks aw0 segs)"
    using L r3 by simp
  show "pointer_tables ext (loc_use_sgmv L) segs aw3 = ((loc_lora_a_ptr L, loc_lora_b_ptr L), aw')"
    using L pt aw' by simp
  show "loc_adapter_index_configs L = index_configs aw0 segs []"
    using L index_configs_static [OF st] aw' by simp
  show "loc_rank_indices L = rank_indices aw0 segs"
    using L rank_indices_from_static [OF st] aw' by (simp add: rank_indices_def)
qed

lemma load_locals_None:
  "fst (load_locals ext adapter_weights meta prefill) = None \<longleftrightarrow>
   lora_only adapter_weights = [] \<or>
   segment_ranks (lora_only adapter_weights) (segment_indices meta) = []"
proof -
  have "segment_ranks (state_before_tables ext adapter_weights meta) (segment_indices meta)
      = segment_ranks (lora_only adapter_weights) (segment_indices meta)"
    by (rule segment_ranks_static [OF state_before_tables_static, symmetric])
  then show ?thesis
    unfolding load_locals_def Let_def state_before_tables_def
    by (simp add: case_prod_beta)
qed

lemma load_Some:
  assumes "load ext adapter_weights meta lname prefill heads = Inr (Some res, aw')"
  shows "\<exists>L hsegs rd.
      load_locals ext adapter_weights meta prefill = (Some L, aw') \<and>
      head_segments meta heads = Inr hsegs \<and>
      rank_data_of ext aw' meta (loc_use_sgmv L) (loc_lora_a_ptr L) (loc_lora_b_ptr L) hsegs
        (loc_rank_indices L) = Inr rd \<and>
      res = \<lparr>lora_a = loc_lora_a L, lora_b = loc_lora_b L,
             adapter_index_configs = loc_adapter_index_configs L,
             rank_data = rd, use_sgmv = loc_use_sgmv L, layer_name = lname,
             prefill_head_indices = heads\<rparr>"
  using assms unfolding load_def bind_result_def
  by (auto split: prod.splits option.splits sum.splits)

lemma load_None:
  "(\<exists>aw'. load ext adapter_weights meta lname prefill heads = Inr (None, aw')) \<longleftrightarrow>
   fst (load_locals ext adapter_weights meta prefill) = None"
  unfolding load_def bind_result_def
  by (auto split: prod.splits option.splits sum.splits)

lemma in_segment_ranks:
  "x \<in> set (segment_ranks aw segs) \<longleftrightarrow>
   (\<exists>idx\<in>set segs. \<exists>w. map_of aw idx = Some w \<and> lora_a_r w = x)"
proof (induction segs)
  case Nil
  then show ?case by (simp add: segment_ranks_def)
next
  case (Cons i rest)
  have step: "segment_ranks aw (i # rest) =
      (case map_of aw i of None \<Rightarrow> [] | Some w \<Rightarrow> [lora_a_r w]) @ segment_ranks aw rest"
    by (simp add: segment_ranks_def)
  show ?case
  proof (cases "map_of aw i")
    case None
    then show ?thesis unfolding step using Cons.IH by simp
  next
    case (Some w)
    then show ?thesis unfolding step using Cons.IH by auto
  qed
qed

lemma set_segment_ranks:
  "set (segment_ranks aw segs) = {lora_a_r w |w idx. idx \<in> set segs \<and> map_of aw idx = Some w}"
proof (rule set_eqI)
  fix x
  show "x \<in> set (segment_ranks aw segs) \<longleftrightarrow>
      x \<in> {lora_a_r w |w idx. idx \<in> set segs \<and> map_of aw idx = Some w}"
    unfolding in_segment_ranks by blast
qed

lemma segment_ranks_empty:
  "segment_ranks aw segs = [] \<longleftrightarrow> (\<forall>idx\<in>set segs. map_of aw idx = None)"
  unfolding segment_ranks_def by (auto split: option.splits)

lemma fold_max_Max: "fold max xs (a::nat) = Max (insert a (set xs))"
proof (induction xs arbitrary: a)
  case Nil
  then show ?case by simp
next
  case (Cons x xs)
  have "fold max (x # xs) a = Max (insert (max x a) (set xs))"
    using Cons.IH [of "max x a"] by simp
  also have "\<dots> = Max (insert a (set (x # xs)))"
  proof (cases "set xs = {}")
    case True
    then show ?thesis by (simp add: max.commute)
  next
    case False
    then show ?thesis by (simp add: Max_insert max.assoc max.commute max.left_commute)
  qed
  finally show ?case .
qed

lemma max_list_Max: "xs \<noteq> [] \<Longrightarrow> max_list xs = Max (set xs)"
  by (cases xs) (simp_all add: max_list_def fold_max_Max)

lemma keys_index_configs:
  "fst ` set (index_configs aw segs acc) =
   fst ` set acc \<union> {idx \<in> set segs. map_of aw idx \<noteq> None}"
  by (induction segs arbitrary: acc) (auto simp: dom_update split: option.splits)

lemma map_of_lora_only_None: "map_of (lora_only xs) k = None \<longleftrightarrow> k \<notin> fst ` set (lora_only xs)"
  by (simp add: map_of_eq_None_iff)

section \<open>The demonstration batch evaluated\<close>

lemma demo_load_decode:
  "load demo_ext demo_adapters demo_meta ''q_proj'' False None
   = Inr (Some (the (fst (projr (load demo_ext demo_adapters demo_meta ''q_proj'' False None)))),
         snd (projr (load demo_ext demo_adapters demo_meta ''q_proj'' False None)))"
  by code_simp

lemma demo_load_prefill:
  "load demo_ext demo_adapters demo_meta ''q_proj'' True None
   = Inr (Some (the (fst (projr (load demo_ext demo_adapters demo_meta ''q_proj'' True None)))),
         snd (projr (load demo_ext demo_adapters demo_meta ''q_proj'' True None)))"
  by code_simp

section \<open>Kernel choice\<close>

text \<open>
  Claim C1. Whenever \<^verbatim>\<open>BatchLoraWeights.load\<close> returns an aggregation, its flag
  \<open>use_sgmv\<close> is true exactly when the step is a prefill step or the largest rank among
  the adapters of the batch segments that are loaded for this layer exceeds
  \<open>BGMV_MAX_RANK\<close>. The flag is one field of the aggregation, so the choice is one for the
  whole batch.
\<close>

theorem load_use_sgmv:
  assumes "load ext adapter_weights meta lname prefill heads = Inr (Some res, aw')"
  shows "use_sgmv res =
    (prefill \<or>
     int (Max {lora_a_r w |w idx. idx \<in> set (segment_indices meta) \<and>
                 map_of (lora_only adapter_weights) idx = Some w}) > BGMV_MAX_RANK ext)"
proof -
  obtain L where L: "load_locals ext adapter_weights meta prefill = (Some L, aw')"
    and res: "use_sgmv res = loc_use_sgmv L"
    using load_Some [OF assms] by auto
  show ?thesis
    using load_locals_Some(2,3) [OF L] res
    by (simp add: choose_sgmv_def max_list_Max set_segment_ranks)
qed

theorem load_use_sgmv_witness:
  "use_sgmv (the (fst (projr (load demo_ext demo_adapters demo_meta ''q_proj'' False None)))) =
    (False \<or>
     int (Max {lora_a_r w |w idx. idx \<in> set (segment_indices demo_meta) \<and>
                 map_of (lora_only demo_adapters) idx = Some w}) > BGMV_MAX_RANK demo_ext)"
  using load_use_sgmv [OF demo_load_decode] .

section \<open>No adapter active\<close>

text \<open>
  Claim C7. \<^verbatim>\<open>load\<close> returns \<open>None\<close> whenever, after unwrapping and filtering, no entry
  of the input dictionary is a \<^verbatim>\<open>LoraWeights\<close> object, or no batch segment's adapter is
  among those entries. It returns before line 278: no pointer table, rank group or
  scratch buffer is built (\<open>load_locals\<close> yields no local variables).
\<close>

theorem load_returns_None:
  assumes "lora_only adapter_weights = [] \<or>
    (\<forall>idx\<in>set (segment_indices meta). idx \<notin> fst ` set (lora_only adapter_weights))"
  shows "fst (load_locals ext adapter_weights meta prefill) = None \<and>
    (\<exists>aw'. load ext adapter_weights meta lname prefill heads = Inr (None, aw'))"
proof -
  have "fst (load_locals ext adapter_weights meta prefill) = None"
    using assms by (auto simp: load_locals_None segment_ranks_empty map_of_eq_None_iff)
  then show ?thesis by (simp add: load_None)
qed

theorem load_returns_None_witness:
  "fst (load_locals demo_ext demo_adapters demo_meta_unloaded True) = None \<and>
   (\<exists>aw'. load demo_ext demo_adapters demo_meta_unloaded ''q_proj'' True None = Inr (None, aw'))"
proof -
  have "\<forall>idx\<in>set (segment_indices demo_meta_unloaded).
      idx \<notin> fst ` set (lora_only demo_adapters)"
    by (simp add: demo_meta_unloaded_def demo_adapters_def)
  then show ?thesis
    using load_returns_None [of demo_adapters demo_meta_unloaded demo_ext True "''q_proj''" None]
    by blast
qed

section \<open>has_adapter\<close>

text \<open>
  Claim C10. On an aggregation returned by \<^verbatim>\<open>load\<close>, \<^verbatim>\<open>has_adapter(i)\<close> holds exactly
  when \<open>i\<close> occurs in the batch's \<open>segment_indices\<close> and \<open>i\<close> is a key of the dictionary
  of \<^verbatim>\<open>LoraWeights\<close> objects; an adapter that is loaded but has no segment in the batch
  reports false.
\<close>

theorem has_adapter_iff:
  assumes "load ext adapter_weights meta lname prefill heads = Inr (Some res, aw')"
  shows "has_adapter res i \<longleftrightarrow>
    i \<in> set (segment_indices meta) \<and> i \<in> fst ` set (lora_only adapter_weights)"
proof -
  obtain L where L: "load_locals ext adapter_weights meta prefill = (Some L, aw')"
    and res: "adapter_index_configs res = loc_adapter_index_configs L"
    using load_Some [OF assms] by auto
  show ?thesis
    unfolding has_adapter_def res load_locals_Some(5) [OF L] keys_index_configs
    by (auto simp: map_of_eq_None_iff)
qed

theorem has_adapter_iff_witness:
  "has_adapter (the (fst (projr (load demo_ext demo_adapters demo_meta ''q_proj'' True None)))) 5
    \<longleftrightarrow> 5 \<in> set (segment_indices demo_meta) \<and> 5 \<in> fst ` set (lora_only demo_adapters)"
  using has_adapter_iff [OF demo_load_prefill] .

section \<open>Rank groups\<close>













lemma sorted_positions_with_rank:
  "sorted (positions_with_rank aw i segs rk) \<and> distinct (positions_with_rank aw i segs rk)"
proof -
  have "sorted (map fst (enumerate i segs))" and "distinct (map fst (enumerate i segs))"
    by simp_all
  then show ?thesis
    unfolding positions_with_rank_def
    by (simp add: sorted_filter distinct_map_filter)
qed





section \<open>The per-group tables\<close>

lemma bind_result_Inr:
  "bind_result m f = Inr y \<longleftrightarrow> (\<exists>x. m = Inr x \<and> f x = Inr y)"
  by (cases m) (simp_all add: bind_result_def)

lemma gather_Inr:
  "gather xs ixs = Inr ys \<longleftrightarrow> (\<forall>i\<in>set ixs. i < length xs) \<and> ys = map ((!) xs) ixs"
proof (induction ixs arbitrary: ys)
  case Nil
  then show ?case by auto
next
  case (Cons i ixs)
  show ?case
    by (cases "i < length xs") (auto simp: bind_result_Inr Cons.IH)
qed

lemma rank_data_of_Inr:
  "rank_data_of ext aw meta sgmv pa pb heads groups = Inr rd \<Longrightarrow>
   list_all2 (\<lambda>g d. fst d = fst g \<and>
       rank_segments ext aw meta sgmv pa pb heads (fst g) (snd g) = Inr (snd d)) groups rd"
proof (induction groups arbitrary: rd)
  case Nil
  then show ?case by simp
next
  case (Cons g groups)
  obtain rk ixs where g: "g = (rk, ixs)" by (cases g)
  from Cons.prems obtain rs rds where
    rs: "rank_segments ext aw meta sgmv pa pb heads rk ixs = Inr rs"
    and rds: "rank_data_of ext aw meta sgmv pa pb heads groups = Inr rds"
    and rd: "rd = (rk, rs) # rds"
    unfolding g by (auto simp: bind_result_Inr)
  show ?case
    using Cons.IH [OF rds] rs rd g by simp
qed

lemma rank_segments_sgmv:
  assumes "rank_segments ext aw meta True pa pb heads rk ixs = Inr rs"
  shows "rank rs = rk"
    and "lora_a_ptr rs = map ((!) pa) ixs" and "lora_b_ptr rs = map ((!) pb) ixs"
    and "indices rs = None"
    and "segment_starts rs = Some (case heads of None \<Rightarrow> map ((!) (adapter_segments meta)) ixs
           | Some (hstarts, hends) \<Rightarrow> map ((!) hstarts) ixs)"
    and "segment_ends rs = Some (case heads of
             None \<Rightarrow> map (\<lambda>i. adapter_segments meta ! (i + 1)) ixs
           | Some (hstarts, hends) \<Rightarrow> map ((!) hends) ixs)"
    and "tmp_shrink rs = Some (fst (get_tmp_tensors ext (length ixs) rk))"
    and "tmp_expand rs = Some (snd (get_tmp_tensors ext (length ixs) rk))"
  using assms unfolding rank_segments_def
  by (auto simp: bind_result_Inr gather_Inr comp_def split: prod.splits option.splits)

lemma rank_segments_bgmv:
  assumes "rank_segments ext aw meta False pa pb heads rk ixs = Inr rs"
  shows "rank rs = rk"
    and "lora_a_ptr rs = map ((!) pa) ixs" and "lora_b_ptr rs = map ((!) pb) ixs"
    and "segment_starts rs = None" and "segment_ends rs = None"
    and "tmp_shrink rs = None" and "tmp_expand rs = None"
    and "\<exists>locs bi. idx_locs_from (segment_indices meta) 0 ixs [] = Inr locs \<and>
           batch_indices_of aw rk locs (adapter_indices meta) = Inr bi \<and> indices rs = Some bi"
  using assms unfolding rank_segments_def
  by (auto simp: bind_result_Inr gather_Inr)




section \<open>The pointer tables\<close>

















section \<open>The per-token index arrays\<close>

lemma idx_locs_from_Inr:
  "idx_locs_from segs loc ixs acc = Inr locs \<Longrightarrow>
   map_of locs a =
     (case map_of acc a of
        Some l \<Rightarrow> Some l
      | None \<Rightarrow> if a \<in> (\<lambda>i. segs ! i) ` set ixs
                then Some (loc + length (takeWhile (\<lambda>i. segs ! i \<noteq> a) ixs)) else None)"
proof (induction ixs arbitrary: loc acc)
  case Nil
  then show ?case by (auto split: option.splits)
next
  case (Cons idx rest)
  from Cons.prems have lt: "idx < length segs"
    by (auto split: if_splits)
  show ?case
  proof (cases "segs ! idx \<in> fst ` set acc")
    case True
    then have rec: "idx_locs_from segs (Suc loc) rest acc = Inr locs"
      using Cons.prems lt by simp
    have known: "map_of acc (segs ! idx) \<noteq> None"
      using True by (simp add: map_of_eq_None_iff)
    show ?thesis
      using Cons.IH [OF rec] known by (auto split: option.splits)
  next
    case False
    let ?acc = "AList.update (segs ! idx) loc acc"
    have rec: "idx_locs_from segs (Suc loc) rest ?acc = Inr locs"
      using Cons.prems lt False by simp
    have unknown: "map_of acc (segs ! idx) = None"
      using False by (simp add: map_of_eq_None_iff)
    have m: "map_of ?acc = (map_of acc)(segs ! idx \<mapsto> loc)" by (rule update_conv')
    show ?thesis
      using Cons.IH [OF rec] unknown by (auto simp: m split: option.splits)
  qed
qed

lemma takeWhile_stops_short:
  assumes "x \<in> set xs" and "\<not> P x"
  shows "length (takeWhile P xs) < length xs"
  using assms by (induction xs) auto

lemma first_occurrence:
  assumes "a \<in> (\<lambda>i. segs ! i) ` set ixs"
  defines "l \<equiv> length (takeWhile (\<lambda>i. segs ! i \<noteq> a) ixs)"
  shows "l < length ixs" and "segs ! (ixs ! l) = a" and "\<forall>l'<l. segs ! (ixs ! l') \<noteq> a"
proof -
  obtain i where i: "i \<in> set ixs" "\<not> segs ! i \<noteq> a" using assms(1) by auto
  show lt: "l < length ixs"
    unfolding l_def using i by (rule takeWhile_stops_short)
  show "segs ! (ixs ! l) = a"
    using nth_length_takeWhile [of "\<lambda>i. segs ! i \<noteq> a" ixs] lt unfolding l_def by simp
  show "\<forall>l'<l. segs ! (ixs ! l') \<noteq> a"
  proof (intro allI impI)
    fix l' assume "l' < l"
    then have "ixs ! l' \<in> set (takeWhile (\<lambda>i. segs ! i \<noteq> a) ixs)"
      unfolding l_def by (metis nth_mem takeWhile_nth)
    then show "segs ! (ixs ! l') \<noteq> a" by (rule set_takeWhileD [THEN conjunct2])
  qed
qed

lemma batch_indices_of_Inr:
  "batch_indices_of aw rk locs toks = Inr bi \<Longrightarrow>
   list_all2 (\<lambda>tok v. case map_of aw tok of
        None \<Rightarrow> v = - 1
      | Some w \<Rightarrow> if lora_a_r w = rk then (\<exists>loc. map_of locs tok = Some loc \<and> v = int loc)
                  else v = - 1) toks bi"
proof (induction toks arbitrary: bi)
  case Nil
  then show ?case by simp
next
  case (Cons tok rest)
  from Cons.prems obtain v vs where
    v: "(case map_of aw tok of
          None \<Rightarrow> Inr (- 1)
        | Some w \<Rightarrow>
            (if lora_a_r w = rk then
               (case map_of locs tok of None \<Rightarrow> Inl KeyError | Some loc \<Rightarrow> Inr (int loc))
             else Inr (- 1))) = Inr v"
    and vs: "batch_indices_of aw rk locs rest = Inr vs" and bi: "bi = v # vs"
    by (auto simp: bind_result_Inr)
  have "case map_of aw tok of
        None \<Rightarrow> v = - 1
      | Some w \<Rightarrow> if lora_a_r w = rk then (\<exists>loc. map_of locs tok = Some loc \<and> v = int loc)
                  else v = - 1"
    using v by (auto split: option.splits if_splits)
  then show ?case using Cons.IH [OF vs] bi by simp
qed

lemma bgmv_indices:
  fixes ext :: "('a, 'b) externals"
  assumes rs: "rank_segments ext aw meta False pa pb heads rk ixs = Inr rs"
  shows "\<exists>bi. indices rs = Some bi \<and>
     list_all2 (\<lambda>tok v. case map_of aw tok of
          None \<Rightarrow> v = - 1
        | Some w \<Rightarrow> if lora_a_r w = rk then
              (\<exists>l<length ixs. v = int l \<and> segment_indices meta ! (ixs ! l) = tok \<and>
                 (\<forall>l'<l. segment_indices meta ! (ixs ! l') \<noteq> tok) \<and>
                 lora_a_ptr rs ! l = pa ! (ixs ! l) \<and> lora_b_ptr rs ! l = pb ! (ixs ! l))
            else v = - 1) (adapter_indices meta) bi"
proof -
  let ?segs = "segment_indices meta"
  obtain locs bi where locs: "idx_locs_from ?segs 0 ixs [] = Inr locs"
    and bi: "batch_indices_of aw rk locs (adapter_indices meta) = Inr bi"
    and ind: "indices rs = Some bi"
    using rank_segments_bgmv(8) [OF rs] by blast
  have slices: "lora_a_ptr rs = map ((!) pa) ixs" "lora_b_ptr rs = map ((!) pb) ixs"
    using rank_segments_bgmv(2,3) [OF rs] by simp_all
  have first: "\<exists>l<length ixs. int loc = int l \<and> ?segs ! (ixs ! l) = tok \<and>
                 (\<forall>l'<l. ?segs ! (ixs ! l') \<noteq> tok) \<and>
                 lora_a_ptr rs ! l = pa ! (ixs ! l) \<and> lora_b_ptr rs ! l = pb ! (ixs ! l)"
    if "map_of locs tok = Some loc" for tok loc
  proof -
    have mem: "tok \<in> (\<lambda>i. ?segs ! i) ` set ixs"
      and loc: "loc = length (takeWhile (\<lambda>i. ?segs ! i \<noteq> tok) ixs)"
      using idx_locs_from_Inr [OF locs, of tok] that by (simp_all split: if_splits)
    show ?thesis
      using first_occurrence [OF mem] loc slices by auto
  qed
  have "list_all2 (\<lambda>tok v. case map_of aw tok of
          None \<Rightarrow> v = - 1
        | Some w \<Rightarrow> if lora_a_r w = rk then
              (\<exists>l<length ixs. v = int l \<and> ?segs ! (ixs ! l) = tok \<and>
                 (\<forall>l'<l. ?segs ! (ixs ! l') \<noteq> tok) \<and>
                 lora_a_ptr rs ! l = pa ! (ixs ! l) \<and> lora_b_ptr rs ! l = pb ! (ixs ! l))
            else v = - 1) (adapter_indices meta) bi"
    by (rule list_all2_mono [OF batch_indices_of_Inr [OF bi]])
       (use first in \<open>auto split: option.splits\<close>)
  then show ?thesis using ind by blast
qed

text \<open>
  Claim C4. On the per-token path (\<open>use_sgmv\<close> false), every rank group has an index
  array with one entry per token of the batch. For a token whose adapter is loaded with
  the rank of the group, the entry is the first place of that adapter within the group's
  positions, hence within the group's pointer slices; for a token whose adapter is not
  loaded for this layer, or is loaded with another rank, the entry is \<open>-1\<close>.
\<close>

theorem per_token_indices:
  assumes "load ext adapter_weights meta lname prefill heads = Inr (Some res, aw')"
    and "\<not> use_sgmv res"
  shows "\<exists>L. load_locals ext adapter_weights meta prefill = (Some L, aw') \<and>
     list_all2 (\<lambda>g d. fst d = fst g \<and> (\<exists>bi. indices (snd d) = Some bi \<and>
         list_all2 (\<lambda>tok v. case map_of (lora_only adapter_weights) tok of
              None \<Rightarrow> v = - 1
            | Some w \<Rightarrow> if lora_a_r w = fst g then
                  (\<exists>l<length (snd g). v = int l \<and>
                     segment_indices meta ! (snd g ! l) = tok \<and>
                     (\<forall>l'<l. segment_indices meta ! (snd g ! l') \<noteq> tok) \<and>
                     lora_a_ptr (snd d) ! l = loc_lora_a_ptr L ! (snd g ! l) \<and>
                     lora_b_ptr (snd d) ! l = loc_lora_b_ptr L ! (snd g ! l))
                else v = - 1) (adapter_indices meta) bi))
       (loc_rank_indices L) (rank_data res)"
proof -
  obtain L hsegs rd where L: "load_locals ext adapter_weights meta prefill = (Some L, aw')"
    and rd: "rank_data_of ext aw' meta (loc_use_sgmv L) (loc_lora_a_ptr L) (loc_lora_b_ptr L)
        hsegs (loc_rank_indices L) = Inr rd"
    and res: "rank_data res = rd" "use_sgmv res = loc_use_sgmv L"
    using load_Some [OF assms(1)] by auto
  have sg: "loc_use_sgmv L = False" using assms(2) res by simp
  have st: "same_static (lora_only adapter_weights) aw'"
    by (rule load_locals_Some(7) [OF L])
  have "list_all2 (\<lambda>g d. fst d = fst g \<and> (\<exists>bi. indices (snd d) = Some bi \<and>
         list_all2 (\<lambda>tok v. case map_of (lora_only adapter_weights) tok of
              None \<Rightarrow> v = - 1
            | Some w \<Rightarrow> if lora_a_r w = fst g then
                  (\<exists>l<length (snd g). v = int l \<and>
                     segment_indices meta ! (snd g ! l) = tok \<and>
                     (\<forall>l'<l. segment_indices meta ! (snd g ! l') \<noteq> tok) \<and>
                     lora_a_ptr (snd d) ! l = loc_lora_a_ptr L ! (snd g ! l) \<and>
                     lora_b_ptr (snd d) ! l = loc_lora_b_ptr L ! (snd g ! l))
                else v = - 1) (adapter_indices meta) bi))
       (loc_rank_indices L) rd"
  proof (rule list_all2_mono [OF rank_data_of_Inr [OF rd]])
    fix g :: "nat \<times> nat list" and d :: "nat \<times> 'b RankSegments"
    assume gd: "fst d = fst g \<and>
      rank_segments ext aw' meta (loc_use_sgmv L) (loc_lora_a_ptr L) (loc_lora_b_ptr L) hsegs
        (fst g) (snd g) = Inr (snd d)"
    have "rank_segments ext (lora_only adapter_weights) meta False (loc_lora_a_ptr L)
        (loc_lora_b_ptr L) hsegs (fst g) (snd g) = Inr (snd d)"
      using gd sg batch_indices_of_static [OF st]
      by (simp add: rank_segments_def)
    from bgmv_indices [OF this] gd
    show "fst d = fst g \<and> (\<exists>bi. indices (snd d) = Some bi \<and>
         list_all2 (\<lambda>tok v. case map_of (lora_only adapter_weights) tok of
              None \<Rightarrow> v = - 1
            | Some w \<Rightarrow> if lora_a_r w = fst g then
                  (\<exists>l<length (snd g). v = int l \<and>
                     segment_indices meta ! (snd g ! l) = tok \<and>
                     (\<forall>l'<l. segment_indices meta ! (snd g ! l') \<noteq> tok) \<and>
                     lora_a_ptr (snd d) ! l = loc_lora_a_ptr L ! (snd g ! l) \<and>
                     lora_b_ptr (snd d) ! l = loc_lora_b_ptr L ! (snd g ! l))
                else v = - 1) (adapter_indices meta) bi)"
      by simp
  qed
  then show ?thesis using L res(1) by blast
qed

lemma demo_decode_not_sgmv:
  "\<not> use_sgmv (the (fst (projr (load demo_ext demo_adapters demo_meta ''q_proj'' False None))))"
  by code_simp

theorem per_token_indices_witness:
  "\<exists>L. load_locals demo_ext demo_adapters demo_meta False =
       (Some L, snd (projr (load demo_ext demo_adapters demo_meta ''q_proj'' False None))) \<and>
     list_all2 (\<lambda>g d. fst d = fst g \<and> (\<exists>bi. indices (snd d) = Some bi \<and>
         list_all2 (\<lambda>tok v. case map_of (lora_only demo_adapters) tok of
              None \<Rightarrow> v = - 1
            | Some w \<Rightarrow> if lora_a_r w = fst g then
                  (\<exists>l<length (snd g). v = int l \<and>
                     segment_indices demo_meta ! (snd g ! l) = tok \<and>
                     (\<forall>l'<l. segment_indices demo_meta ! (snd g ! l') \<noteq> tok) \<and>
                     lora_a_ptr (snd d) ! l = loc_lora_a_ptr L ! (snd g ! l) \<and>
                     lora_b_ptr (snd d) ! l = loc_lora_b_ptr L ! (snd g ! l))
                else v = - 1) (adapter_indices demo_meta) bi))
       (loc_rank_indices L)
       (rank_data (the (fst (projr (load demo_ext demo_adapters demo_meta ''q_proj'' False None)))))"
  using per_token_indices [OF demo_load_decode demo_decode_not_sgmv] .

section \<open>Segment boundaries over the selected positions\<close>

lemma bounds_mono:
  fixes bounds :: "int list"
  assumes "\<forall>k<n. bounds ! k < bounds ! (k + 1)" and "k \<le> k'" and "k' \<le> n"
  shows "bounds ! k \<le> bounds ! k'"
  using assms(2,3)
proof (induction k' rule: dec_induct)
  case base
  then show ?case by simp
next
  case (step m)
  then have "bounds ! m < bounds ! (m + 1)" using assms(1) by simp
  then show ?case using step by simp
qed

lemma head_inv_init: "1 \<le> n \<Longrightarrow> head_inv bounds n [] 1 [0] [0]"
  by (simp add: head_inv_def)

lemma head_inv_step:
  fixes bounds :: "int list"
  assumes inv: "head_inv bounds n pre j starts ends"
    and hs: "hs = pre @ h # rest" and sorted: "sorted hs"
    and strict: "\<forall>k<n. bounds ! k < bounds ! (k + 1)"
    and each: "\<forall>k<n. \<exists>x\<in>set hs. bounds ! k \<le> x \<and> x < bounds ! (k + 1)"
    and inside: "\<forall>x\<in>set hs. x < bounds ! n"
  shows "h < bounds ! j \<Longrightarrow> head_inv bounds n (pre @ [h]) j starts (butlast ends @ [last ends + 1])"
    and "\<not> h < bounds ! j \<Longrightarrow>
      head_inv bounds n (pre @ [h]) (j + 1) (starts @ [last ends]) (ends @ [last ends + 1])"
proof -
  from inv have j: "1 \<le> j" "j \<le> n" and len: "length ends = j"
    and st: "starts = 0 # butlast ends"
    and cnt: "\<forall>k<j. ends ! k = int (length (filter (\<lambda>x. x < bounds ! (k + 1)) pre))"
    and below: "\<forall>x\<in>set pre. x < bounds ! j"
    and opened: "2 \<le> j \<longrightarrow> (\<exists>x\<in>set pre. bounds ! (j - 1) \<le> x)"
    by (simp_all add: head_inv_def)
  have ne: "ends \<noteq> []" using len j by auto
  have last_e: "last ends = int (length pre)"
  proof -
    have "last ends = ends ! (j - 1)" using ne len by (simp add: last_conv_nth)
    also have "\<dots> = int (length (filter (\<lambda>x. x < bounds ! j) pre))"
      using cnt j by simp
    also have "filter (\<lambda>x. x < bounds ! j) pre = pre"
      using below by simp
    finally show ?thesis .
  qed
  have pre_le: "x \<le> h" if "x \<in> set pre" for x
    using sorted that unfolding hs by (simp add: sorted_append)
  have h_ge: "bounds ! (k + 1) \<le> h" if "k + 1 < j" for k
  proof -
    have "2 \<le> j" using that by simp
    then obtain x where x: "x \<in> set pre" "bounds ! (j - 1) \<le> x" using opened by blast
    have "bounds ! (k + 1) \<le> bounds ! (j - 1)"
      using that j by (intro bounds_mono [OF strict]) simp_all
    then show ?thesis using x pre_le [OF x(1)] by simp
  qed
  {
    assume lt: "h < bounds ! j"
    have cnt': "(butlast ends @ [last ends + 1]) ! k =
        int (length (filter (\<lambda>x. x < bounds ! (k + 1)) (pre @ [h])))" if "k < j" for k
    proof (cases "k = j - 1")
      case True
      have "(butlast ends @ [last ends + 1]) ! k = last ends + 1"
        using True len ne by (simp add: nth_append)
      moreover have "filter (\<lambda>x. x < bounds ! j) pre = pre" using below by simp
      ultimately show ?thesis using True j lt last_e by simp
    next
      case False
      then have k: "k + 1 < j" using that by simp
      have "k < length (butlast ends)" using k len by simp
      then have "(butlast ends @ [last ends + 1]) ! k = ends ! k"
        by (simp add: nth_append nth_butlast)
      then show ?thesis using cnt that h_ge [OF k] by simp
    qed
    show "head_inv bounds n (pre @ [h]) j starts (butlast ends @ [last ends + 1])"
      unfolding head_inv_def using j len ne st cnt' below lt opened by auto
  }
  {
    assume ge: "\<not> h < bounds ! j"
    have "h < bounds ! n" using inside hs by simp
    then have jn: "j < n" using ge j by (cases "j = n") auto
    obtain x where x: "x \<in> set hs" "bounds ! j \<le> x" "x < bounds ! (j + 1)"
      using each jn by blast
    have "x \<notin> set pre" using below x(2) by auto
    then have "x \<in> set (h # rest)" using x(1) hs by simp
    then have "h \<le> x" using sorted unfolding hs by (auto simp: sorted_append)
    then have h_lt: "h < bounds ! (j + 1)" using x(3) by simp
    have bj: "bounds ! j < bounds ! (j + 1)" using strict jn by simp
    have cnt': "(ends @ [last ends + 1]) ! k =
        int (length (filter (\<lambda>x. x < bounds ! (k + 1)) (pre @ [h])))" if "k < j + 1" for k
    proof (cases "k = j")
      case True
      have "\<forall>x\<in>set pre. x < bounds ! (j + 1)" using below bj by force
      then have "filter (\<lambda>x. x < bounds ! (j + 1)) pre = pre" by simp
      then show ?thesis using True len h_lt last_e by (simp add: nth_append)
    next
      case False
      then have k: "k < j" using that by simp
      have "bounds ! (k + 1) \<le> bounds ! j"
        using k j by (intro bounds_mono [OF strict]) simp_all
      then have "\<not> h < bounds ! (k + 1)" using ge by simp
      then show ?thesis using cnt k len by (simp add: nth_append)
    qed
    have below': "\<forall>x\<in>set (pre @ [h]). x < bounds ! (j + 1)"
      using below bj h_lt by auto
    have st': "starts @ [last ends] = 0 # butlast (ends @ [last ends + 1])"
      using st ne by simp
    show "head_inv bounds n (pre @ [h]) (j + 1) (starts @ [last ends]) (ends @ [last ends + 1])"
      unfolding head_inv_def using jn len st' cnt' below' ge by auto
  }
qed

lemma prefill_head_segments_inv:
  fixes bounds :: "int list"
  assumes "length bounds = n + 1" and "sorted hs"
    and "\<forall>k<n. \<exists>x\<in>set hs. bounds ! k \<le> x \<and> x < bounds ! (k + 1)"
    and "\<forall>x\<in>set hs. x < bounds ! n"
  shows "hs = pre @ rest \<Longrightarrow> head_inv bounds n pre j starts ends \<Longrightarrow>
    \<exists>j' starts' ends'. prefill_head_segments bounds rest j starts ends = Inr (starts', ends') \<and>
      head_inv bounds n hs j' starts' ends'"
proof (induction rest arbitrary: pre j starts ends)
  case Nil
  then show ?case by auto
next
  case (Cons h rest)
  have strict: "\<forall>k<n. bounds ! k < bounds ! (k + 1)"
    using assms(3) by force
  have jlen: "j < length bounds"
    using Cons.prems(2) assms(1) by (simp add: head_inv_def)
  have split: "hs = (pre @ [h]) @ rest" using Cons.prems(1) by simp
  show ?case
  proof (cases "h < bounds ! j")
    case True
    have "head_inv bounds n (pre @ [h]) j starts (butlast ends @ [last ends + 1])"
      using head_inv_step(1) [OF Cons.prems(2) Cons.prems(1) assms(2) strict assms(3,4) True] .
    from Cons.IH [OF split this] show ?thesis using True jlen by simp
  next
    case False
    have "head_inv bounds n (pre @ [h]) (j + 1) (starts @ [last ends]) (ends @ [last ends + 1])"
      using head_inv_step(2) [OF Cons.prems(2) Cons.prems(1) assms(2) strict assms(3,4) False] .
    from Cons.IH [OF split this] show ?thesis using False jlen by simp
  qed
qed

lemma sorted_count_below:
  fixes xs :: "int list"
  shows "sorted xs \<Longrightarrow> i < length xs \<Longrightarrow>
    (i < length (filter (\<lambda>h. h < b) xs)) = (xs ! i < b)"
proof (induction xs arbitrary: i)
  case Nil
  then show ?case by simp
next
  case (Cons x xs)
  show ?case
  proof (cases "x < b")
    case True
    then show ?thesis using Cons by (cases i) simp_all
  next
    case False
    have all: "\<forall>y\<in>set (x # xs). \<not> y < b" using Cons.prems(1) False by auto
    have "(x # xs) ! i \<in> set (x # xs)" using Cons.prems(2) by (rule nth_mem)
    then have "\<not> (x # xs) ! i < b" using all by blast
    moreover have "filter (\<lambda>h. h < b) (x # xs) = []"
      using all by (simp add: filter_empty_conv)
    ultimately show ?thesis by simp
  qed
qed

lemma prefill_head_segments_correct:
  fixes bounds :: "int list"
  assumes len: "length bounds = n + 1" and n: "1 \<le> n" and sorted: "sorted hs"
    and each: "\<forall>k<n. \<exists>x\<in>set hs. bounds ! k \<le> x \<and> x < bounds ! (k + 1)"
    and inside: "\<forall>x\<in>set hs. x < bounds ! n"
  shows "\<exists>starts ends. prefill_head_segments bounds hs 1 [0] [0] = Inr (starts, ends) \<and>
    length starts = n \<and> length ends = n \<and> starts ! 0 = 0 \<and> ends ! (n - 1) = int (length hs) \<and>
    (\<forall>k. Suc k < n \<longrightarrow> starts ! Suc k = ends ! k) \<and>
    (\<forall>k<n. \<forall>i<length hs. (starts ! k \<le> int i \<and> int i < ends ! k) \<longleftrightarrow>
        ((k = 0 \<or> bounds ! k \<le> hs ! i) \<and> hs ! i < bounds ! (k + 1)))"
proof -
  have strict: "\<forall>k<n. bounds ! k < bounds ! (k + 1)" using each by force
  obtain j starts ends where run: "prefill_head_segments bounds hs 1 [0] [0] = Inr (starts, ends)"
    and inv: "head_inv bounds n hs j starts ends"
    using prefill_head_segments_inv [OF len sorted each inside, of "[]" hs 1 "[0]" "[0]"]
      head_inv_init [OF n] by auto
  from inv have j: "1 \<le> j" "j \<le> n" and lene: "length ends = j"
    and st: "starts = 0 # butlast ends"
    and cnt: "\<forall>k<j. ends ! k = int (length (filter (\<lambda>x. x < bounds ! (k + 1)) hs))"
    and below: "\<forall>x\<in>set hs. x < bounds ! j"
    by (simp_all add: head_inv_def)
  have jn: "j = n"
  proof (rule ccontr)
    assume "j \<noteq> n"
    then have lt: "j \<le> n - 1" "n - 1 < n" using j by simp_all
    obtain x where x: "x \<in> set hs" "bounds ! (n - 1) \<le> x" using each lt(2) by blast
    have "bounds ! j \<le> bounds ! (n - 1)"
      using lt by (intro bounds_mono [OF strict]) simp_all
    then show False using below x by force
  qed
  have ne: "ends \<noteq> []" using lene j by auto
  have lens: "length starts = n" using st lene jn n by simp
  have s0: "starts ! 0 = 0" using st by simp
  have sk: "starts ! Suc k = ends ! k" if "Suc k < n" for k
    using that st lene jn by (simp add: nth_butlast)
  have elast: "ends ! (n - 1) = int (length hs)"
  proof -
    have "filter (\<lambda>x. x < bounds ! n) hs = hs" using inside by simp
    then show ?thesis using cnt jn n by simp
  qed
  have run_of: "(starts ! k \<le> int i \<and> int i < ends ! k) \<longleftrightarrow>
        ((k = 0 \<or> bounds ! k \<le> hs ! i) \<and> hs ! i < bounds ! (k + 1))"
    if k: "k < n" and i: "i < length hs" for k i
  proof -
    have e: "int i < ends ! k \<longleftrightarrow> hs ! i < bounds ! (k + 1)"
      using cnt k jn sorted_count_below [OF sorted i, of "bounds ! (k + 1)"] by simp
    show ?thesis
    proof (cases k)
      case 0
      then show ?thesis using e s0 by simp
    next
      case (Suc m)
      have "starts ! k = ends ! m" using sk k Suc by simp
      also have "\<dots> = int (length (filter (\<lambda>x. x < bounds ! k) hs))"
        using cnt k jn Suc by simp
      finally have "starts ! k \<le> int i \<longleftrightarrow> \<not> hs ! i < bounds ! k"
        using sorted_count_below [OF sorted i, of "bounds ! k"] by (simp add: not_less [symmetric])
      then show ?thesis using e Suc by auto
    qed
  qed
  show ?thesis
    using run lens lene jn s0 elast sk run_of by blast
qed

lemma segment_ranks_segments: "segment_ranks aw segs \<noteq> [] \<Longrightarrow> 1 \<le> length segs"
  by (cases segs) (simp_all add: segment_ranks_def)

lemma sgmv_boundaries:
  fixes ext :: "('a, 'b) externals"
  assumes "rank_data_of ext aw meta True pa pb (Some (starts, ends)) groups = Inr rd"
  shows "list_all2 (\<lambda>g d. fst d = fst g \<and>
      segment_starts (snd d) = Some (map ((!) starts) (snd g)) \<and>
      segment_ends (snd d) = Some (map ((!) ends) (snd g))) groups rd"
proof (rule list_all2_mono [OF rank_data_of_Inr [OF assms]])
  fix g :: "nat \<times> nat list" and d :: "nat \<times> 'b RankSegments"
  assume gd: "fst d = fst g \<and>
    rank_segments ext aw meta True pa pb (Some (starts, ends)) (fst g) (snd g) = Inr (snd d)"
  then have rs: "rank_segments ext aw meta True pa pb (Some (starts, ends)) (fst g) (snd g)
      = Inr (snd d)" by simp
  show "fst d = fst g \<and>
      segment_starts (snd d) = Some (map ((!) starts) (snd g)) \<and>
      segment_ends (snd d) = Some (map ((!) ends) (snd g))"
    using gd rank_segments_sgmv(5,6) [OF rs] by simp
qed

text \<open>
  Claim C9. Let a list of selected token positions be given to \<^verbatim>\<open>load\<close>, in increasing
  order, every position before the last boundary of the batch (a token position of the
  batch), every segment of the batch holding at least one of them, the metadata
  having one boundary more than segments. Then lines 326-335 produce one
  \<open>[start, end)\<close> range per segment, in metadata order: the range of segment \<open>k\<close> is the
  run of indices into the list whose positions lie before the segment's next boundary
  (and, but for the first segment, not before its own); the first range starts at 0, each
  next one where the one before ends, the last ends at the length of the list. On the
  variable-length path the \<open>segment_starts\<close> and \<open>segment_ends\<close> of every rank group are
  these boundaries at the group's positions.
\<close>

theorem head_segment_boundaries:
  assumes "load ext adapter_weights meta lname prefill (Some hs) = Inr (Some res, aw')"
    and "sorted hs"
    and "length (adapter_segments meta) = length (segment_indices meta) + 1"
    and "\<forall>k<length (segment_indices meta).
           \<exists>h\<in>set hs. adapter_segments meta ! k \<le> h \<and> h < adapter_segments meta ! (k + 1)"
    and "\<forall>h\<in>set hs. h < adapter_segments meta ! length (segment_indices meta)"
  shows "\<exists>starts ends L.
    prefill_head_segments (adapter_segments meta) hs 1 [0] [0] = Inr (starts, ends) \<and>
    length starts = length (segment_indices meta) \<and>
    length ends = length (segment_indices meta) \<and>
    starts ! 0 = 0 \<and> ends ! (length (segment_indices meta) - 1) = int (length hs) \<and>
    (\<forall>k. Suc k < length (segment_indices meta) \<longrightarrow> starts ! Suc k = ends ! k) \<and>
    (\<forall>k<length (segment_indices meta). \<forall>i<length hs.
        (starts ! k \<le> int i \<and> int i < ends ! k) \<longleftrightarrow>
        ((k = 0 \<or> adapter_segments meta ! k \<le> hs ! i) \<and>
         hs ! i < adapter_segments meta ! (k + 1))) \<and>
    load_locals ext adapter_weights meta prefill = (Some L, aw') \<and>
    (use_sgmv res \<longrightarrow>
       list_all2 (\<lambda>g d. fst d = fst g \<and>
           segment_starts (snd d) = Some (map ((!) starts) (snd g)) \<and>
           segment_ends (snd d) = Some (map ((!) ends) (snd g)))
         (loc_rank_indices L) (rank_data res))"
proof -
  let ?n = "length (segment_indices meta)"
  obtain L hsegs rd where L: "load_locals ext adapter_weights meta prefill = (Some L, aw')"
    and hsegs: "head_segments meta (Some hs) = Inr hsegs"
    and rd: "rank_data_of ext aw' meta (loc_use_sgmv L) (loc_lora_a_ptr L) (loc_lora_b_ptr L)
        hsegs (loc_rank_indices L) = Inr rd"
    and res: "rank_data res = rd" "use_sgmv res = loc_use_sgmv L"
    using load_Some [OF assms(1)] by auto
  have n: "1 \<le> ?n"
    using load_locals_Some(2) [OF L] by (rule segment_ranks_segments)
  obtain starts ends where
    run: "prefill_head_segments (adapter_segments meta) hs 1 [0] [0] = Inr (starts, ends)"
    and shape: "length starts = ?n" "length ends = ?n" "starts ! 0 = 0"
      "ends ! (?n - 1) = int (length hs)"
      "\<forall>k. Suc k < ?n \<longrightarrow> starts ! Suc k = ends ! k"
      "\<forall>k<?n. \<forall>i<length hs. (starts ! k \<le> int i \<and> int i < ends ! k) \<longleftrightarrow>
        ((k = 0 \<or> adapter_segments meta ! k \<le> hs ! i) \<and>
         hs ! i < adapter_segments meta ! (k + 1))"
    using prefill_head_segments_correct [OF assms(3) n assms(2) assms(4) assms(5)] by blast
  have hs: "hsegs = Some (starts, ends)"
    using hsegs run by (simp add: head_segments_def bind_result_def)
  have tables: "list_all2 (\<lambda>g d. fst d = fst g \<and>
           segment_starts (snd d) = Some (map ((!) starts) (snd g)) \<and>
           segment_ends (snd d) = Some (map ((!) ends) (snd g)))
         (loc_rank_indices L) (rank_data res)" if "use_sgmv res"
    using sgmv_boundaries [of ext aw' meta "loc_lora_a_ptr L" "loc_lora_b_ptr L" starts ends
        "loc_rank_indices L" rd] rd that res hs by simp
  show ?thesis
    using run shape L tables by blast
qed

lemma demo_load_heads:
  "load demo_ext demo_adapters demo_meta ''q_proj'' True (Some [1, 4, 5, 6])
   = Inr (Some (the (fst (projr (load demo_ext demo_adapters demo_meta ''q_proj'' True (Some [1, 4, 5, 6]))))),
         snd (projr (load demo_ext demo_adapters demo_meta ''q_proj'' True (Some [1, 4, 5, 6]))))"
  by code_simp

theorem head_segment_boundaries_witness:
  "\<exists>starts ends.
    prefill_head_segments (adapter_segments demo_meta) [1, 4, 5, 6] 1 [0] [0] = Inr (starts, ends) \<and>
    length starts = length (segment_indices demo_meta) \<and>
    length ends = length (segment_indices demo_meta) \<and>
    starts ! 0 = 0 \<and>
    ends ! (length (segment_indices demo_meta) - 1) = int (length [1, 4, 5, 6 :: int])"
proof -
  have sorted: "sorted [1, 4, 5, 6 :: int]" by simp
  have len: "length (adapter_segments demo_meta) = length (segment_indices demo_meta) + 1"
    by (simp add: demo_meta_def)
  have each: "\<forall>k<length (segment_indices demo_meta).
      \<exists>h\<in>set [1, 4, 5, 6 :: int].
        adapter_segments demo_meta ! k \<le> h \<and> h < adapter_segments demo_meta ! (k + 1)"
    by (auto simp: demo_meta_def less_Suc_eq numeral_eq_Suc)
  have inside: "\<forall>h\<in>set [1, 4, 5, 6 :: int].
      h < adapter_segments demo_meta ! length (segment_indices demo_meta)"
    by (simp add: demo_meta_def)
  show ?thesis
    using head_segment_boundaries [OF demo_load_heads sorted len each inside] by blast
qed

section \<open>The orientation toggle\<close>

lemma transpose_rows_twice:
  assumes "length m = a" and "\<forall>row\<in>set m. length row = c"
  shows "map (\<lambda>i. map (\<lambda>row. row ! i) (map (\<lambda>j. map (\<lambda>row. row ! j) m) [0..<c])) [0..<a] = m"
proof (rule nth_equalityI)
  show "length (map (\<lambda>i. map (\<lambda>row. row ! i) (map (\<lambda>j. map (\<lambda>row. row ! j) m) [0..<c])) [0..<a])
      = length m"
    using assms(1) by simp
next
  fix i
  assume "i < length (map (\<lambda>i. map (\<lambda>row. row ! i) (map (\<lambda>j. map (\<lambda>row. row ! j) m) [0..<c])) [0..<a])"
  then have i: "i < a" by simp
  then have len: "length (m ! i) = c" using assms by simp
  have "map (\<lambda>row. row ! i) (map (\<lambda>j. map (\<lambda>row. row ! j) m) [0..<c])
      = map (\<lambda>j. m ! i ! j) [0..<c]"
    using i assms(1) by simp
  also have "\<dots> = m ! i"
    using len map_nth [of "m ! i"] by simp
  finally show "map (\<lambda>i. map (\<lambda>row. row ! i) (map (\<lambda>j. map (\<lambda>row. row ! j) m) [0..<c])) [0..<a] ! i
      = m ! i"
    using i by simp
qed

lemma transpose_1_2_twice:
  assumes "tensor_ok t"
  shows "same_elements (transpose_1_2 np (transpose_1_2 np t)) t"
proof -
  have rows: "\<forall>m\<in>set (blocks t). length m = size1 t \<and> (\<forall>row\<in>set m. length row = size2 t)"
    using assms by (simp add: tensor_ok_def list_all_iff)
  have elem: "map (\<lambda>i. map (\<lambda>row. row ! i) (map (\<lambda>j. map (\<lambda>row. row ! j) m) [0..<size2 t]))
            [0..<size1 t] = m" if "m \<in> set (blocks t)" for m
    using rows that by (intro transpose_rows_twice) auto
  have "blocks (transpose_1_2 np (transpose_1_2 np t)) =
      map (\<lambda>m. map (\<lambda>i. map (\<lambda>row. row ! i) (map (\<lambda>j. map (\<lambda>row. row ! j) m) [0..<size2 t]))
            [0..<size1 t]) (blocks t)"
    by (simp add: transpose_1_2_def comp_def)
  also have "\<dots> = blocks t"
    by (rule map_idI) (rule elem)
  finally have "blocks (transpose_1_2 np (transpose_1_2 np t)) = blocks t" .
  then show ?thesis
    by (simp add: same_elements_def) (simp add: transpose_1_2_def)
qed

lemma transpose_1_2_transposed:
  assumes "tensor_ok t"
  shows "transposed_of (transpose_1_2 np t) t"
proof -
  have len: "length (blocks t) = size0 t"
    and rows: "\<forall>m\<in>set (blocks t). length m = size1 t \<and> (\<forall>row\<in>set m. length row = size2 t)"
    using assms by (simp_all add: tensor_ok_def list_all_iff)
  have elem: "length (blocks (transpose_1_2 np t) ! l) = size2 t \<and>
      (\<forall>j<size2 t. length (blocks (transpose_1_2 np t) ! l ! j) = size1 t \<and>
         (\<forall>i<size1 t. blocks (transpose_1_2 np t) ! l ! j ! i = blocks t ! l ! i ! j))"
    if l: "l < size0 t" for l
  proof -
    have m: "blocks t ! l \<in> set (blocks t)" using l len by simp
    then have lm: "length (blocks t ! l) = size1 t" using rows by blast
    have bl: "blocks (transpose_1_2 np t) ! l =
        map (\<lambda>j. map (\<lambda>row. row ! j) (blocks t ! l)) [0..<size2 t]"
      using l len by (simp add: transpose_1_2_def)
    show ?thesis unfolding bl using lm by simp
  qed
  show ?thesis
    unfolding transposed_of_def using elem len by (simp add: transpose_1_2_def)
qed

lemma same_elements_refl: "same_elements t t"
  by (simp add: same_elements_def)

text \<open>
  Claim C8. On a \<^verbatim>\<open>LoraWeights\<close> object in its load-time state, reading either transposed
  property (\<^verbatim>\<open>weights_a_t\<close> or \<^verbatim>\<open>weights_b_t\<close>, whichever comes first) flips the object:
  its B block becomes the B block with the last two dimensions exchanged, element
  \<open>(l, j, i)\<close> the old element \<open>(l, i, j)\<close>; its A block is exchanged in the same way when
  the object uses the cutlass shrink and is left as it is otherwise. On the flipped
  object the transposed properties read these blocks without flipping again, and reading
  either original property (\<^verbatim>\<open>weights_a\<close> or \<^verbatim>\<open>weights_b\<close>) flips the object back: the A
  and the B block then have the shape and, element for element, the values of the
  load-time blocks, in both configurations.
\<close>

theorem orientation_round_trip:
  assumes "tensor_ok (priv_weights_a w)" and "tensor_ok (priv_weights_b w)"
    and "\<not> priv_is_transposed w"
  shows "weights_a np w = (priv_weights_a w, w) \<and> weights_b np w = (priv_weights_b w, w) \<and>
    snd (weights_a_t np w) = transpose_weights np w \<and>
    snd (weights_b_t np w) = transpose_weights np w \<and>
    fst (weights_a_t np w) = priv_weights_a (transpose_weights np w) \<and>
    fst (weights_b_t np w) = priv_weights_b (transpose_weights np w) \<and>
    priv_is_transposed (transpose_weights np w) \<and>
    transposed_of (priv_weights_b (transpose_weights np w)) (priv_weights_b w) \<and>
    (if priv_use_cutlass_shrink w
     then transposed_of (priv_weights_a (transpose_weights np w)) (priv_weights_a w)
     else priv_weights_a (transpose_weights np w) = priv_weights_a w) \<and>
    weights_a_t np (transpose_weights np w) =
      (priv_weights_a (transpose_weights np w), transpose_weights np w) \<and>
    weights_b_t np (transpose_weights np w) =
      (priv_weights_b (transpose_weights np w), transpose_weights np w) \<and>
    snd (weights_a np (transpose_weights np w)) = snd (weights_b np (transpose_weights np w)) \<and>
    \<not> priv_is_transposed (snd (weights_a np (transpose_weights np w))) \<and>
    same_elements (fst (weights_a np (transpose_weights np w))) (priv_weights_a w) \<and>
    same_elements (fst (weights_b np (transpose_weights np w))) (priv_weights_b w) \<and>
    same_elements (priv_weights_a (snd (weights_b np (transpose_weights np w)))) (priv_weights_a w) \<and>
    same_elements (priv_weights_b (snd (weights_a np (transpose_weights np w)))) (priv_weights_b w)"
proof -
  let ?tw = "transpose_weights np w"
  let ?undone = "transpose_weights np ?tw"
  have flipped: "priv_is_transposed ?tw"
    using assms(3) by (simp add: transpose_weights_def)
  have ucs: "priv_use_cutlass_shrink ?tw = priv_use_cutlass_shrink w"
    by (simp add: transpose_weights_def)
  have b_tw: "priv_weights_b ?tw = transpose_1_2 np (priv_weights_b w)"
    by (simp add: transpose_weights_def)
  have a_tw: "priv_weights_a ?tw =
      (if priv_use_cutlass_shrink w then transpose_1_2 np (priv_weights_a w) else priv_weights_a w)"
    by (simp add: transpose_weights_def)
  have b_back: "priv_weights_b ?undone = transpose_1_2 np (transpose_1_2 np (priv_weights_b w))"
    by (simp add: transpose_weights_def)
  have a_back: "priv_weights_a ?undone =
      (if priv_use_cutlass_shrink w then transpose_1_2 np (transpose_1_2 np (priv_weights_a w))
       else priv_weights_a w)"
    by (simp add: transpose_weights_def)
  have sb: "same_elements (priv_weights_b ?undone) (priv_weights_b w)"
    unfolding b_back using assms(2) by (rule transpose_1_2_twice)
  have sa: "same_elements (priv_weights_a ?undone) (priv_weights_a w)"
    unfolding a_back using transpose_1_2_twice [OF assms(1), of np]
    by (simp add: same_elements_refl)
  have tb: "transposed_of (priv_weights_b ?tw) (priv_weights_b w)"
    unfolding b_tw using assms(2) by (rule transpose_1_2_transposed)
  have ta: "if priv_use_cutlass_shrink w
     then transposed_of (priv_weights_a ?tw) (priv_weights_a w)
     else priv_weights_a ?tw = priv_weights_a w"
    unfolding a_tw using transpose_1_2_transposed [OF assms(1), of np] by simp
  have orig: "weights_a np w = (priv_weights_a w, w)" "weights_b np w = (priv_weights_b w, w)"
    using assms(3) by (simp_all add: weights_a_def weights_b_def Let_def)
  have t1: "weights_a_t np w = (priv_weights_a ?tw, ?tw)" "weights_b_t np w = (priv_weights_b ?tw, ?tw)"
    using assms(3) by (simp_all add: weights_a_t_def weights_b_t_def Let_def)
  have t2: "weights_a_t np ?tw = (priv_weights_a ?tw, ?tw)"
    "weights_b_t np ?tw = (priv_weights_b ?tw, ?tw)"
    using flipped by (simp_all add: weights_a_t_def weights_b_t_def Let_def)
  have o2: "weights_a np ?tw = (priv_weights_a ?undone, ?undone)"
    "weights_b np ?tw = (priv_weights_b ?undone, ?undone)"
    using flipped by (simp_all add: weights_a_def weights_b_def Let_def)
  have unflipped: "\<not> priv_is_transposed ?undone"
    using flipped by (simp add: transpose_weights_def)
  show ?thesis
    unfolding orig t1 t2 o2 fst_conv snd_conv
    using flipped tb ta unflipped sa sb by simp
qed

lemma toggle_weights_ok:
  "tensor_ok (priv_weights_a (toggle_weights True))"
  "tensor_ok (priv_weights_b (toggle_weights True))"
  "\<not> priv_is_transposed (toggle_weights True)"
  by code_simp+

theorem orientation_round_trip_witness:
  "blocks (fst (weights_b_t (\<lambda>t. data_ptr t + 1) (toggle_weights True))) =
     [[[7, 10], [8, 11], [9, 12]]] \<and>
   blocks (fst (weights_a_t (\<lambda>t. data_ptr t + 1) (toggle_weights True))) =
     [[[1, 3, 5], [2, 4, 6]]] \<and>
   same_elements
     (fst (weights_b (\<lambda>t. data_ptr t + 1) (snd (weights_b_t (\<lambda>t. data_ptr t + 1) (toggle_weights True)))))
     (priv_weights_b (toggle_weights True)) \<and>
   same_elements
     (fst (weights_a (\<lambda>t. data_ptr t + 1) (snd (weights_b_t (\<lambda>t. data_ptr t + 1) (toggle_weights True)))))
     (priv_weights_a (toggle_weights True))"
proof -
  note t = orientation_round_trip [OF toggle_weights_ok, of "\<lambda>t. data_ptr t + 1"]
  have b: "blocks (fst (weights_b_t (\<lambda>t. data_ptr t + 1) (toggle_weights True))) =
     [[[7, 10], [8, 11], [9, 12]]]"
    by code_simp
  have a: "blocks (fst (weights_a_t (\<lambda>t. data_ptr t + 1) (toggle_weights True))) =
     [[[1, 3, 5], [2, 4, 6]]]"
    by code_simp
  show ?thesis using t a b by simp
qed







section \<open>The rank an adapter is grouped by\<close>

lemma stack_Inr:
  assumes "stack np ws = Inr t"
  shows "ws \<noteq> []" and "size0 t = length ws" and "size1 t = dim0 (hd ws)"
    and "size2 t = dim1 (hd ws)"
  using assms unfolding stack_def by (auto split: list.splits if_splits)











end
